theory Spec2Isabelle
  imports Complex_Main "HOL-Library.Multiset"
begin

section \<open>Data model (src/src/types/index.ts)\<close>

text \<open>
  A JavaScript \<^verbatim>\<open>number\<close> that holds a coordinate, a distance or a matrix entry is a
  real number here: arithmetic is exact, and the values NaN and Infinity do not occur.
  The source computes in IEEE doubles. Rounding is not modelled; overflow is kept out of the
  theorems about distances and unit vectors by a bound on the coordinates, stated with them.
  A disk index inside a contact is an \<^typ>\<open>int\<close> (the validator tests it for being
  negative), the disk count and list positions are \<^typ>\<open>nat\<close>.
\<close>

type_synonym Point = "real \<times> real"

type_synonym Contact = "int \<times> int"

record Configuration =
  n :: nat
  positions :: "Point list"
  radii :: "real list"
  contacts :: "Contact list"
  latticeContacts :: "Contact list"
  latticeShifts :: "Point list"

record GraphValidation =
  isValid :: bool
  expectedEdges :: nat
  actualEdges :: nat
  message :: string

record ConstraintData =
  contactMatrix :: "real list list"
  rollingMatrix :: "real list list"
  dimension :: nat

record PerimeterResult =
  perimeter :: real
  gradient :: "real list"

record HessianResult =
  hessian :: "real list list"
  eigenvalues :: "real list"
  eigenvectors :: "real list list"
  isLocalMinimum :: bool
  indexMorseCritical :: nat

text \<open>\<^verbatim>\<open>createConfiguration\<close>: the only constructor of the repository; it sets the
  disk count to the number of positions.\<close>

definition createConfiguration ::
  "Point list \<Rightarrow> Contact list \<Rightarrow> real \<Rightarrow> Contact list \<Rightarrow> Point list \<Rightarrow> Configuration" where
  "createConfiguration ps cs radius lcs lss =
     \<lparr> n = length ps, positions = ps, radii = replicate (length ps) radius,
       contacts = cs, latticeContacts = lcs, latticeShifts = lss \<rparr>"

section \<open>Numbers inside template strings\<close>

text \<open>A template literal renders an integer in decimal (below \<open>10^21\<close> in absolute
  value, which is all the validator meets), a negative one with a leading minus sign.\<close>

definition digit :: "nat \<Rightarrow> char" where
  "digit d = char_of (48 + d)"

fun showNat :: "nat \<Rightarrow> string" where
  "showNat k = (if k < 10 then [digit k] else showNat (k div 10) @ [digit (k mod 10)])"

declare showNat.simps [simp del]

definition showInt :: "int \<Rightarrow> string" where
  "showInt i = (if i < 0 then CHR ''-'' # showNat (nat (- i)) else showNat (nat i))"

section \<open>Graph validator (src/src/services/contactGraphs.ts)\<close>

subsection \<open>buildAdjacencyList\<close>

text \<open>The adjacency map has the keys \<open>0 .. n-1\<close>; it is the list of its values. A
  \<^verbatim>\<open>Set\<close> of numbers is the list of its elements in insertion order.\<close>

definition adjGet :: "int list list \<Rightarrow> int \<Rightarrow> int list" where
  "adjGet adj u = (if 0 \<le> u \<and> u < int (length adj) then adj ! nat u else [])"

definition setAdd :: "int list \<Rightarrow> int \<Rightarrow> int list" where
  "setAdd s v = (if v \<in> set s then s else s @ [v])"

definition adjAdd :: "int list list \<Rightarrow> int \<Rightarrow> int \<Rightarrow> int list list" where
  "adjAdd adj u v =
     (if 0 \<le> u \<and> u < int (length adj) then adj[nat u := setAdd (adj ! nat u) v] else adj)"

definition buildAdjacencyList :: "nat \<Rightarrow> Contact list \<Rightarrow> int list list" where
  "buildAdjacencyList k cs =
     foldl (\<lambda>adj (u, v). adjAdd (adjAdd adj u v) v u) (replicate k []) cs"

subsection \<open>isConnected\<close>

text \<open>The inner \<^verbatim>\<open>for\<close> loop over the neighbours of the dequeued node; the state is the
  visited set and the queue.\<close>

fun visitNeighbors :: "int list \<Rightarrow> int list \<times> int list \<Rightarrow> int list \<times> int list" where
  "visitNeighbors [] (visited, queue) = (visited, queue)"
| "visitNeighbors (x # xs) (visited, queue) =
     (if x \<in> set visited then visitNeighbors xs (visited, queue)
      else visitNeighbors xs (visited @ [x], queue @ [x]))"

definition adjNodes :: "int list list \<Rightarrow> int set" where
  "adjNodes adj = \<Union> (set ` set adj)"

lemma adjGet_subset: "set (adjGet adj u) \<subseteq> adjNodes adj"
proof (cases "0 \<le> u \<and> u < int (length adj)")
  case True
  then have "nat u < length adj" by linarith
  then have "adj ! nat u \<in> set adj" by (rule nth_mem)
  with True show ?thesis by (auto simp: adjGet_def adjNodes_def)
next
  case False
  then show ?thesis by (auto simp: adjGet_def)
qed

lemma visitNeighbors_measure:
  "finite U \<Longrightarrow> set nb \<subseteq> U \<Longrightarrow> visitNeighbors nb (vis, q) = (vis', q') \<Longrightarrow>
   card (U - set vis') + length q' = card (U - set vis) + length q"
proof (induction nb arbitrary: vis q)
  case Nil
  then show ?case by simp
next
  case (Cons x xs)
  show ?case
  proof (cases "x \<in> set vis")
    case True
    with Cons show ?thesis by simp
  next
    case False
    with Cons.prems have step: "visitNeighbors xs (vis @ [x], q @ [x]) = (vis', q')"
      by simp
    from Cons.prems have xs: "set xs \<subseteq> U" and xU: "x \<in> U" by auto
    have "card (U - set vis') + length q' = card (U - set (vis @ [x])) + length (q @ [x])"
      using Cons.IH [OF Cons.prems(1) xs step] .
    moreover have "U - set (vis @ [x]) = (U - set vis) - {x}" by auto
    moreover have "card (U - set vis) = Suc (card ((U - set vis) - {x}))"
      using xU False Cons.prems(1) by (intro card.remove) auto
    ultimately show ?thesis by simp
  qed
qed

text \<open>The \<^verbatim>\<open>while (queue.length > 0)\<close> loop; it returns the visited set.\<close>

function bfsLoop :: "int list list \<Rightarrow> int list \<Rightarrow> int list \<Rightarrow> int list" where
  "bfsLoop adj visited queue =
     (case queue of
        [] \<Rightarrow> visited
      | node # rest \<Rightarrow>
          (case visitNeighbors (adjGet adj node) (visited, rest) of
             (visited', queue') \<Rightarrow> bfsLoop adj visited' queue'))"
  by pat_completeness auto
termination
proof (relation "measure (\<lambda>(adj, vis, q). card (adjNodes adj - set vis) + length q)", goal_cases)
  case 1
  show ?case by simp
next
  case (2 adj visited queue node rest vis' q')
  have fin: "finite (adjNodes adj)" by (simp add: adjNodes_def)
  have "visitNeighbors (adjGet adj node) (visited, rest) = (vis', q')"
    using 2(2) by (rule sym)
  from visitNeighbors_measure [OF fin adjGet_subset this]
  show ?case using 2(1) by simp
qed

declare bfsLoop.simps [simp del]

definition isConnected :: "nat \<Rightarrow> Contact list \<Rightarrow> bool" where
  "isConnected k cs =
     (if k = 0 then True
      else if k = 1 then True
      else if length cs = 0 then k \<le> 1
      else length (bfsLoop (buildAdjacencyList k cs) [0] [0]) = k)"

subsection \<open>computeVertexDegrees\<close>

text \<open>\<^verbatim>\<open>degrees[u]++\<close> on an array of length \<open>n\<close>. An index outside \<open>[0, n)\<close> would create
  an entry that the caller, which reads \<open>degrees[0 .. n-1]\<close> only, never looks at: the
  first \<open>n\<close> entries stay as they are.\<close>

definition incrAt :: "nat list \<Rightarrow> int \<Rightarrow> nat list" where
  "incrAt ds u = (if 0 \<le> u \<and> u < int (length ds) then ds[nat u := ds ! nat u + 1] else ds)"

definition computeVertexDegrees :: "nat \<Rightarrow> Contact list \<Rightarrow> nat list" where
  "computeVertexDegrees k cs = foldl (\<lambda>ds (u, v). incrAt (incrAt ds u) v) (replicate k 0) cs"

subsection \<open>checkGraphValidity\<close>

definition outOfRange :: "nat \<Rightarrow> Contact \<Rightarrow> bool" where
  "outOfRange k c = (case c of (u, v) \<Rightarrow> u < 0 \<or> u \<ge> int k \<or> v < 0 \<or> v \<ge> int k)"

definition edgeKey :: "Contact \<Rightarrow> string" where
  "edgeKey c = (case c of (u, v) \<Rightarrow>
     if u < v then showInt u @ ''-'' @ showInt v else showInt v @ ''-'' @ showInt u)"

text \<open>The duplicate loop: the first contact whose key is already in the set.\<close>

fun findDuplicate :: "Contact list \<Rightarrow> string list \<Rightarrow> Contact option" where
  "findDuplicate [] edgeSet = None"
| "findDuplicate (c # cs) edgeSet =
     (if edgeKey c \<in> set edgeSet then Some c else findDuplicate cs (edgeSet @ [edgeKey c]))"

text \<open>The degree loop: the first vertex \<open>i < n\<close> of degree above 6.\<close>

definition findOverDegree :: "nat \<Rightarrow> nat list \<Rightarrow> nat option" where
  "findOverDegree k degrees = List.find (\<lambda>i. degrees ! i > 6) [0..<k]"

definition invalid :: "nat \<Rightarrow> string \<Rightarrow> GraphValidation" where
  "invalid edges msg =
     \<lparr> isValid = False, expectedEdges = 0, actualEdges = edges, message = msg \<rparr>"

text \<open>\<^verbatim>\<open>const allContacts = [...contacts, ...config.latticeContacts]\<close>\<close>

definition allContacts :: "Configuration \<Rightarrow> Contact list" where
  "allContacts config = contacts config @ latticeContacts config"

definition checkGraphValidity :: "Configuration \<Rightarrow> GraphValidation" where
  "checkGraphValidity config =
    (let allContacts = allContacts config;
         actualEdges = length allContacts
     in case List.find (outOfRange (n config)) allContacts of
          Some (u, v) \<Rightarrow>
            invalid actualEdges
              (''Invalid index in contact ('' @ showInt u @ '', '' @ showInt v
                 @ ''): must be in [0, '' @ showInt (int (n config) - 1) @ '']'')
        | None \<Rightarrow>
     (case List.find (\<lambda>(u, v). u = v) allContacts of
          Some (u, v) \<Rightarrow> invalid actualEdges (''Self-loop detected at vertex '' @ showInt u)
        | None \<Rightarrow>
     (case findDuplicate allContacts [] of
          Some (u, v) \<Rightarrow>
            invalid actualEdges (''Duplicate edge ('' @ showInt u @ '', '' @ showInt v @ '')'')
        | None \<Rightarrow>
     if \<not> isConnected (n config) allContacts
     then invalid actualEdges ''Graph is not connected''
     else
     (let degrees = computeVertexDegrees (n config) allContacts
      in case findOverDegree (n config) degrees of
           Some i \<Rightarrow>
             invalid actualEdges
               (''Vertex '' @ showNat i @ '' has degree '' @ showNat (degrees ! i)
                  @ '' > 6 (kissing number violation)'')
         | None \<Rightarrow>
      (let expectedEdges = 2 * n config + 1
       in \<lparr> isValid = True, expectedEdges = expectedEdges, actualEdges = actualEdges,
            message =
              (if actualEdges = expectedEdges
               then ''Valid graph with expected edge count''
               else ''Valid graph ('' @ showNat actualEdges @ '' edges, expected ''
                      @ showNat expectedEdges @ '' for rigidity)'') \<rparr>)))))"

section \<open>Dense matrices and the linear-algebra library\<close>

text \<open>
  A \<^verbatim>\<open>number[][]\<close> is a list of rows. The source calls the library \<^verbatim>\<open>ml-matrix\<close> for
  transposition, products, the symmetric eigen-decomposition and the singular value
  decomposition. The library is not part of the repository. Transposition and product
  have one meaning and are written out; the two decompositions are parameters of every
  function that calls them:
  \<^item> an \<open>EigenvalueDecomposition\<close> maps a square matrix to \<^verbatim>\<open>realEigenvalues\<close> and the
    rows of \<^verbatim>\<open>eigenvectorMatrix\<close>;
  \<^item> an \<open>SVD\<close> maps a matrix to \<^verbatim>\<open>leftSingularVectors\<close>, \<^verbatim>\<open>diagonal\<close> and
    \<^verbatim>\<open>rightSingularVectors\<close>.
\<close>

type_synonym Matrix = "real list list"

type_synonym EigenvalueDecomposition = "Matrix \<Rightarrow> real list \<times> Matrix"

type_synonym SVD = "Matrix \<Rightarrow> Matrix \<times> real list \<times> Matrix"

definition numCols :: "Matrix \<Rightarrow> nat" where
  "numCols A = (case A of [] \<Rightarrow> 0 | row # _ \<Rightarrow> length row)"

definition column :: "Matrix \<Rightarrow> nat \<Rightarrow> real list" where
  "column A j = map (\<lambda>row. row ! j) A"

definition transposeM :: "Matrix \<Rightarrow> Matrix" where
  "transposeM A = map (column A) [0..<numCols A]"

definition dot :: "real list \<Rightarrow> real list \<Rightarrow> real" where
  "dot xs ys = sum_list (map2 (*) xs ys)"

definition mmul :: "Matrix \<Rightarrow> Matrix \<Rightarrow> Matrix" where
  "mmul A B = map (\<lambda>row. map (\<lambda>j. dot row (column B j)) [0..<numCols B]) A"

definition zeros :: "nat \<Rightarrow> nat \<Rightarrow> Matrix" where
  "zeros r c = replicate r (replicate c 0)"

text \<open>
  Writing to an array element, \<^verbatim>\<open>a[k] = v\<close> and \<^verbatim>\<open>a[k] += v\<close>. The source writes at
  positions computed from disk indices into arrays of length \<open>2n\<close>. A write beyond the end
  would lengthen the JavaScript array (and \<^verbatim>\<open>+=\<close> would store NaN there); that can happen
  only when \<open>n\<close> is smaller than the number of positions, which \<^const>\<open>createConfiguration\<close>
  rules out. Here such a write leaves the list as it is, and every theorem about these
  functions assumes that \<open>n\<close> is the number of positions.
\<close>

definition arraySet :: "real list \<Rightarrow> nat \<Rightarrow> real \<Rightarrow> real list" where
  "arraySet xs k v = (if k < length xs then xs[k := v] else xs)"

definition arrayAdd :: "real list \<Rightarrow> nat \<Rightarrow> real \<Rightarrow> real list" where
  "arrayAdd xs k v = (if k < length xs then xs[k := xs ! k + v] else xs)"

definition matrixAdd :: "Matrix \<Rightarrow> nat \<Rightarrow> nat \<Rightarrow> real \<Rightarrow> Matrix" where
  "matrixAdd H r c v = (if r < length H then H[r := arrayAdd (H ! r) c v] else H)"

section \<open>Constraint builder (src/src/services/constraints.ts)\<close>

text \<open>What a call can throw: the \<^verbatim>\<open>Error\<close> of \<^verbatim>\<open>buildContactMatrix\<close>, and the
  \<^verbatim>\<open>TypeError\<close> of reading a coordinate of a position that does not exist.\<close>

datatype error = CoincidentCenters int int | TypeError

definition hasPosition :: "Point list \<Rightarrow> int \<Rightarrow> bool" where
  "hasPosition ps i = (0 \<le> i \<and> i < int (length ps))"

text \<open>
  The body of the loop of \<^verbatim>\<open>buildContactMatrix\<close>: the row of one contact. In the source
  \<^verbatim>\<open>dx * dx + dy * dy\<close> is \<^verbatim>\<open>Infinity\<close> when the two centers are \<open>2^512\<close> or more apart,
  and the row is then all zeros; in real numbers the sum is finite and the row holds the
  unit vector. The theorem about the rows is stated for coordinates where this cannot
  happen.
\<close>

definition contactRow :: "nat \<Rightarrow> Point list \<Rightarrow> Contact \<Rightarrow> error + real list" where
  "contactRow cols ps c = (case c of (i, j) \<Rightarrow>
     if \<not> hasPosition ps j \<or> \<not> hasPosition ps i then Inl TypeError
     else
       (let dx = fst (ps ! nat j) - fst (ps ! nat i);
            dy = snd (ps ! nat j) - snd (ps ! nat i);
            dist = sqrt (dx * dx + dy * dy)
        in if dist < 1 / 10 ^ 15 then Inl (CoincidentCenters i j)
           else
             (let ux = dx / dist;
                  uy = dy / dist;
                  row0 = replicate cols 0;
                  row1 = arraySet row0 (2 * nat i) (- ux);
                  row2 = arraySet row1 (2 * nat i + 1) (- uy);
                  row3 = arraySet row2 (2 * nat j) ux;
                  row4 = arraySet row3 (2 * nat j + 1) uy
              in Inr row4)))"

fun contactRows :: "nat \<Rightarrow> Point list \<Rightarrow> Contact list \<Rightarrow> error + Matrix" where
  "contactRows cols ps [] = Inr []"
| "contactRows cols ps (c # cs) =
     (case contactRow cols ps c of
        Inl e \<Rightarrow> Inl e
      | Inr row \<Rightarrow>
          (case contactRows cols ps cs of
             Inl e \<Rightarrow> Inl e
           | Inr rows \<Rightarrow> Inr (row # rows)))"

definition buildContactMatrix :: "Configuration \<Rightarrow> error + Matrix" where
  "buildContactMatrix config = contactRows (2 * n config) (positions config) (contacts config)"

definition rollingSpaceBasis :: "EigenvalueDecomposition \<Rightarrow> Matrix \<Rightarrow> real \<Rightarrow> Matrix" where
  "rollingSpaceBasis eig A tolerance =
     (if length A = 0 then []
      else
        (let cols = length (A ! 0);
             AtA = mmul (transposeM A) A
         in case eig AtA of (eigenvals, V) \<Rightarrow>
           (let nullIndices =
                  filter (\<lambda>i. \<bar>eigenvals ! i\<bar> < tolerance) [0..<length eigenvals]
            in if length nullIndices = 0 then replicate cols []
               else map (\<lambda>row. map (\<lambda>colIdx. row ! colIdx) nullIndices) V)))"

definition computeConstraints :: "EigenvalueDecomposition \<Rightarrow> Configuration \<Rightarrow> error + ConstraintData" where
  "computeConstraints eig config =
     (case buildContactMatrix config of
        Inl e \<Rightarrow> Inl e
      | Inr A \<Rightarrow>
          (let R = rollingSpaceBasis eig A (1 / 10 ^ 10);
               d = (if length R > 0 then length (R ! 0) else 0)
           in Inr \<lparr> contactMatrix = A, rollingMatrix = R, dimension = d \<rparr>))"

section \<open>Convex hull and perimeter (src/src/services/perimeter.ts)\<close>

subsection \<open>Array.prototype.sort and Set\<close>

text \<open>\<^verbatim>\<open>sort\<close> with a comparator is stable; an element goes before the elements it does
  not compare greater than. \<^verbatim>\<open>Array.from(new Set(xs))\<close> keeps the first occurrence of every
  element.\<close>

fun insertBy :: "('a \<Rightarrow> 'a \<Rightarrow> real) \<Rightarrow> 'a \<Rightarrow> 'a list \<Rightarrow> 'a list" where
  "insertBy cmp x [] = [x]"
| "insertBy cmp x (y # ys) = (if cmp x y \<le> 0 then x # y # ys else y # insertBy cmp x ys)"

definition jsSort :: "('a \<Rightarrow> 'a \<Rightarrow> real) \<Rightarrow> 'a list \<Rightarrow> 'a list" where
  "jsSort cmp xs = foldr (insertBy cmp) xs []"

definition dedupe :: "nat list \<Rightarrow> nat list" where
  "dedupe xs = foldl (\<lambda>acc x. if x \<in> set acc then acc else acc @ [x]) [] xs"

subsection \<open>convexHullIndices\<close>

text \<open>An indexed point \<^verbatim>\<open>{x, y, i}\<close>.\<close>

type_synonym IndexedPoint = "real \<times> real \<times> nat"

definition xOf :: "IndexedPoint \<Rightarrow> real" where "xOf p = fst p"

definition yOf :: "IndexedPoint \<Rightarrow> real" where "yOf p = fst (snd p)"

definition iOf :: "IndexedPoint \<Rightarrow> nat" where "iOf p = snd (snd p)"

text \<open>The comparator \<^verbatim>\<open>(a, b) => a.x - b.x || a.y - b.y\<close>.\<close>

definition compareXY :: "IndexedPoint \<Rightarrow> IndexedPoint \<Rightarrow> real" where
  "compareXY a b = (if xOf a - xOf b \<noteq> 0 then xOf a - xOf b else yOf a - yOf b)"

definition cross :: "IndexedPoint \<Rightarrow> IndexedPoint \<Rightarrow> IndexedPoint \<Rightarrow> real" where
  "cross orig a b = (xOf a - xOf orig) * (yOf b - yOf orig) - (yOf a - yOf orig) * (xOf b - xOf orig)"

definition EPS :: real where
  "EPS = 1 / 10 ^ 12"

text \<open>The \<^verbatim>\<open>while\<close> loop that pops the right turns before \<open>p\<close> is pushed.\<close>

function popRightTurns :: "IndexedPoint \<Rightarrow> IndexedPoint list \<Rightarrow> IndexedPoint list" where
  "popRightTurns p chain =
     (if length chain \<ge> 2
         \<and> cross (chain ! (length chain - 2)) (chain ! (length chain - 1)) p < - EPS
      then popRightTurns p (butlast chain)
      else chain)"
  by pat_completeness auto
termination
  by (relation "measure (\<lambda>(p, chain). length chain)") auto

declare popRightTurns.simps [simp del]

definition halfHull :: "IndexedPoint list \<Rightarrow> IndexedPoint list" where
  "halfHull pts = foldl (\<lambda>chain p. popRightTurns p chain @ [p]) [] pts"

definition convexHullIndices :: "Point list \<Rightarrow> nat list" where
  "convexHullIndices points =
     (if length points \<le> 1 then [0..<length points]
      else
        (let indexed = map (\<lambda>(p, i). (fst p, snd p, i)) (zip points [0..<length points]);
             sorted = jsSort compareXY indexed;
             lower = halfHull sorted;
             upper = halfHull (rev sorted);
             hullIndices = map iOf (butlast lower @ butlast upper)
         in dedupe hullIndices))"

subsection \<open>isCollinear\<close>

text \<open>
  The centred data: one row \<open>[x - meanX, y - meanY]\<close> for every point. The sums, the
  means and the differences are exact here; the source rounds each of them to a double, so
  the rows it hands to the decomposition can differ from these in the last bits.
\<close>

definition centeredRows :: "Point list \<Rightarrow> Matrix" where
  "centeredRows points =
     (let meanX = foldl (+) 0 (map fst points) / real (length points);
          meanY = foldl (+) 0 (map snd points) / real (length points)
      in map (\<lambda>p. [fst p - meanX, snd p - meanY]) points)"

text \<open>\<^verbatim>\<open>s[1] < 1e-8\<close> is false when \<^verbatim>\<open>s[1]\<close> is undefined.\<close>

definition isCollinear :: "SVD \<Rightarrow> Point list \<Rightarrow> bool" where
  "isCollinear svd points =
     (if length points < 3 then True
      else
        (case svd (centeredRows points) of (U, s, V) \<Rightarrow>
           (case s of s0 # s1 # _ \<Rightarrow> s1 < 1 / 10 ^ 8 | _ \<Rightarrow> False)))"

subsection \<open>perimeterOfCenters and perimeterOfDisks\<close>

text \<open>The pairs \<open>(hull[i], hull[j])\<close> with \<open>i < j\<close>, in the order of the two nested loops.\<close>

fun hullPairs :: "nat list \<Rightarrow> (nat \<times> nat) list" where
  "hullPairs [] = []"
| "hullPairs (a # rest) = map (\<lambda>b. (a, b)) rest @ hullPairs rest"

definition distance :: "Point \<Rightarrow> Point \<Rightarrow> real" where
  "distance p q = sqrt ((fst q - fst p) ^ 2 + (snd q - snd p) ^ 2)"

text \<open>The collinear branch: twice the largest distance between two hull points.\<close>

definition perimeterCollinear :: "Point list \<Rightarrow> nat list \<Rightarrow> real" where
  "perimeterCollinear ps hullIx =
     2 * foldl (\<lambda>maxDist (a, b). max maxDist (distance (ps ! a) (ps ! b))) 0 (hullPairs hullIx)"

text \<open>The other branch: the sum of the edge lengths around the hull.\<close>

definition perimeterPolygon :: "Point list \<Rightarrow> nat list \<Rightarrow> real" where
  "perimeterPolygon ps hullIx =
     foldl (\<lambda>perimeter i.
         perimeter + distance (ps ! (hullIx ! i)) (ps ! (hullIx ! ((i + 1) mod length hullIx))))
       0 [0..<length hullIx]"

definition perimeterOfCenters :: "SVD \<Rightarrow> Configuration \<Rightarrow> real" where
  "perimeterOfCenters svd config =
     (let hullIx = convexHullIndices (positions config)
      in if length hullIx \<le> 1 then 0
         else if isCollinear svd (positions config)
              then perimeterCollinear (positions config) hullIx
              else perimeterPolygon (positions config) hullIx)"

text \<open>\<^verbatim>\<open>config.radii[0]\<close> is undefined when there is no radius, and the sum is then NaN:
  the result \<open>None\<close>.\<close>

definition perimeterOfDisks :: "SVD \<Rightarrow> Configuration \<Rightarrow> real option" where
  "perimeterOfDisks svd config =
     (case radii config of
        [] \<Rightarrow> None
      | r # _ \<Rightarrow> Some (perimeterOfCenters svd config + 2 * pi * r))"

subsection \<open>perimeterGradient\<close>

text \<open>
  The search for the two ends in the collinear branch: the state is
  \<open>(maxDist, endA, endB)\<close>, where \<open>maxDist\<close> holds a squared distance. In the source the
  squared distance is \<^verbatim>\<open>Infinity\<close> when two hull centers are \<open>2^512\<close> or more apart, and
  the gradient then stays zero; the theorem about the gradient is stated for coordinates
  where this cannot happen.
\<close>

fun farthestSqStep :: "Point list \<Rightarrow> real \<times> nat \<times> nat \<Rightarrow> nat \<times> nat \<Rightarrow> real \<times> nat \<times> nat" where
  "farthestSqStep ps (maxDist, endA, endB) (a, b) =
     (let dSq = (fst (ps ! b) - fst (ps ! a)) ^ 2 + (snd (ps ! b) - snd (ps ! a)) ^ 2
      in if dSq > maxDist then (dSq, a, b) else (maxDist, endA, endB))"

definition farthestPairSq :: "Point list \<Rightarrow> nat list \<Rightarrow> real \<times> nat \<times> nat" where
  "farthestPairSq ps hullIx = foldl (farthestSqStep ps) (0, 0, 0) (hullPairs hullIx)"

definition gradientCollinear :: "Point list \<Rightarrow> nat list \<Rightarrow> real list \<Rightarrow> real list" where
  "gradientCollinear ps hullIx grad =
     (case farthestPairSq ps hullIx of (maxDist, endA, endB) \<Rightarrow>
        (let dist = sqrt maxDist
         in if dist < 1 / 10 ^ 15 then grad
            else
              (let dx = fst (ps ! endB) - fst (ps ! endA);
                   dy = snd (ps ! endB) - snd (ps ! endA);
                   ux = dx / dist;
                   uy = dy / dist;
                   g1 = arrayAdd grad (2 * endA) (- (2 * ux));
                   g2 = arrayAdd g1 (2 * endA + 1) (- (2 * uy));
                   g3 = arrayAdd g2 (2 * endB) (2 * ux);
                   g4 = arrayAdd g3 (2 * endB + 1) (2 * uy)
               in g4)))"

definition gradientPolygon :: "Point list \<Rightarrow> nat list \<Rightarrow> real list \<Rightarrow> real list" where
  "gradientPolygon ps hullIx grad =
     foldl (\<lambda>g k.
         (let i = hullIx ! k;
              j = hullIx ! ((k + 1) mod length hullIx);
              dx = fst (ps ! j) - fst (ps ! i);
              dy = snd (ps ! j) - snd (ps ! i);
              dist = sqrt (dx * dx + dy * dy)
          in if dist < 1 / 10 ^ 15 then g
             else
               (let ux = dx / dist;
                    uy = dy / dist;
                    g1 = arrayAdd g (2 * i) (- ux);
                    g2 = arrayAdd g1 (2 * i + 1) (- uy);
                    g3 = arrayAdd g2 (2 * j) ux;
                    g4 = arrayAdd g3 (2 * j + 1) uy
                in g4)))
       grad [0..<length hullIx]"

definition perimeterGradient :: "SVD \<Rightarrow> Configuration \<Rightarrow> real list" where
  "perimeterGradient svd config =
     (let grad = replicate (2 * n config) 0;
          hullIx = convexHullIndices (positions config)
      in if length hullIx \<le> 1 then grad
         else if isCollinear svd (positions config)
              then gradientCollinear (positions config) hullIx grad
              else gradientPolygon (positions config) hullIx grad)"

definition computePerimeter :: "SVD \<Rightarrow> Configuration \<Rightarrow> real option \<times> real list" where
  "computePerimeter svd config = (perimeterOfDisks svd config, perimeterGradient svd config)"

section \<open>Hessian engine (src/services/hessian.ts)\<close>

definition computeEdgeBlock :: "real \<times> real \<Rightarrow> real \<Rightarrow> Matrix" where
  "computeEdgeBlock t dst =
     (let tx = fst t; ty = snd t
      in [[(1 - tx * tx) / dst, (- tx * ty) / dst],
          [(- tx * ty) / dst, (1 - ty * ty) / dst]])"

definition addBlock :: "Matrix \<Rightarrow> Matrix \<Rightarrow> nat \<Rightarrow> nat \<Rightarrow> real \<Rightarrow> Matrix" where
  "addBlock H block row col sign =
     (let H1 = matrixAdd H (2 * row) (2 * col) (sign * (block ! 0 ! 0));
          H2 = matrixAdd H1 (2 * row) (2 * col + 1) (sign * (block ! 0 ! 1));
          H3 = matrixAdd H2 (2 * row + 1) (2 * col) (sign * (block ! 1 ! 0));
          H4 = matrixAdd H3 (2 * row + 1) (2 * col + 1) (sign * (block ! 1 ! 1))
      in H4)"

text \<open>The four calls of \<^verbatim>\<open>addBlock\<close> that every edge and every contact makes.\<close>

definition addEdgeBlocks :: "Matrix \<Rightarrow> Matrix \<Rightarrow> nat \<Rightarrow> nat \<Rightarrow> Matrix" where
  "addEdgeBlocks H block u v =
     addBlock (addBlock (addBlock (addBlock H block u u 1) block v v 1) block u v (- 1))
       block v u (- 1)"

subsection \<open>buildEuclideanHessian\<close>

text \<open>\<^verbatim>\<open>hull[0]\<close> and \<^verbatim>\<open>hull[1]\<close> are undefined on a shorter hull: the value \<open>None\<close>.\<close>

definition nthOpt :: "'a list \<Rightarrow> nat \<Rightarrow> 'a option" where
  "nthOpt xs k = (if k < length xs then Some (xs ! k) else None)"

definition farthestPair :: "Point list \<Rightarrow> nat list \<Rightarrow> real \<times> nat option \<times> nat option" where
  "farthestPair ps hullIx =
     foldl (\<lambda>(maxDist, endA, endB) (a, b).
         (let d = distance (ps ! a) (ps ! b)
          in if d > maxDist then (d, Some a, Some b) else (maxDist, endA, endB)))
       (0, nthOpt hullIx 0, nthOpt hullIx 1) (hullPairs hullIx)"

text \<open>The collinear branch. The two ends are read only when \<open>maxDist > 1e-15\<close>, that is
  after the loop has stored a pair; the last case is never taken.\<close>

definition euclideanCollinear :: "Point list \<Rightarrow> nat list \<Rightarrow> Matrix \<Rightarrow> Matrix" where
  "euclideanCollinear ps hullIx H =
     (case farthestPair ps hullIx of (maxDist, endA, endB) \<Rightarrow>
        if maxDist > 1 / 10 ^ 15
        then (case (endA, endB) of
                (Some a, Some b) \<Rightarrow>
                  (let dx = fst (ps ! b) - fst (ps ! a);
                       dy = snd (ps ! b) - snd (ps ! a);
                       t = (dx / maxDist, dy / maxDist);
                       block = computeEdgeBlock t maxDist;
                       scaledBlock = map (\<lambda>r. map (\<lambda>v. 2 * v) r) block
                   in addEdgeBlocks H scaledBlock a b)
              | _ \<Rightarrow> H)
        else H)"

definition euclideanPolygon :: "Point list \<Rightarrow> nat list \<Rightarrow> Matrix \<Rightarrow> Matrix" where
  "euclideanPolygon ps hullIx H0 =
     foldl (\<lambda>H k.
         (let u = hullIx ! k;
              v = hullIx ! ((k + 1) mod length hullIx);
              dx = fst (ps ! v) - fst (ps ! u);
              dy = snd (ps ! v) - snd (ps ! u);
              dist = sqrt (dx * dx + dy * dy)
          in if dist < 1 / 10 ^ 15 then H
             else addEdgeBlocks H (computeEdgeBlock (dx / dist, dy / dist) dist) u v))
       H0 [0..<length hullIx]"

definition buildEuclideanHessian :: "SVD \<Rightarrow> Configuration \<Rightarrow> Matrix" where
  "buildEuclideanHessian svd config =
     (let dim = 2 * n config;
          H = zeros dim dim;
          hullIx = convexHullIndices (positions config)
      in if isCollinear svd (positions config)
         then euclideanCollinear (positions config) hullIx H
         else euclideanPolygon (positions config) hullIx H)"

subsection \<open>solveLagrangeMultipliers\<close>

text \<open>\<^verbatim>\<open>Math.max(...S)\<close>; on an empty \<open>S\<close> the loop below does not run and the value is not
  used.\<close>

definition maxOf :: "real list \<Rightarrow> real" where
  "maxOf S = (case S of [] \<Rightarrow> 0 | s # ss \<Rightarrow> foldl max s ss)"

definition solveLagrangeMultipliers :: "SVD \<Rightarrow> Matrix \<Rightarrow> real list \<Rightarrow> real list" where
  "solveLagrangeMultipliers svd A grad =
     (if length A = 0 then []
      else
        (let At = transposeM A;
             b = map (\<lambda>g. [g]) grad
         in case svd At of (U, S, V) \<Rightarrow>
           (let Utb = mmul (transposeM U) b;
                tol = 1 / 10 ^ 10 * maxOf S;
                m = length A
            in foldl (\<lambda>result i.
                   if S ! i > tol
                   then (let coeff = (Utb ! i ! 0) / (S ! i)
                         in foldl (\<lambda>res j. arrayAdd res j ((V ! j ! i) * coeff)) result [0..<m])
                   else result)
                 (replicate m 0) [0..<min (length S) m])))"

subsection \<open>buildGeometricHessian\<close>

text \<open>Called by \<^verbatim>\<open>computeHessian\<close> only, after \<^verbatim>\<open>buildContactMatrix\<close> has returned for the
  same configuration: every contact then has both positions.\<close>

definition buildGeometricHessian :: "Configuration \<Rightarrow> real list \<Rightarrow> Matrix" where
  "buildGeometricHessian config lambdas =
     foldl (\<lambda>H ((i, j), idx).
         (let dx = fst (positions config ! nat j) - fst (positions config ! nat i);
              dy = snd (positions config ! nat j) - snd (positions config ! nat i);
              dist = sqrt (dx * dx + dy * dy)
          in if dist < 1 / 10 ^ 15 then H
             else
               (let ux = dx / dist;
                    uy = dy / dist;
                    lam = lambdas ! idx;
                    factor = - lam / 2;
                    block = [[factor * (1 - ux * ux), factor * (- ux * uy)],
                             [factor * (- ux * uy), factor * (1 - uy * uy)]]
                in addEdgeBlocks H block (nat i) (nat j))))
       (zeros (2 * n config) (2 * n config))
       (zip (contacts config) [0..<length (contacts config)])"

subsection \<open>projectToRoll, symmetrize, intrinsicSpectrum\<close>

definition projectToRoll :: "Matrix \<Rightarrow> Matrix \<Rightarrow> Matrix" where
  "projectToRoll HAmbient R = mmul (mmul (transposeM R) HAmbient) R"

definition symmetrize :: "Matrix \<Rightarrow> Matrix" where
  "symmetrize H =
     map (\<lambda>i. map (\<lambda>j. (H ! i ! j + H ! j ! i) / 2) [0..<length H]) [0..<length H]"

definition intrinsicSpectrum ::
  "EigenvalueDecomposition \<Rightarrow> Matrix \<Rightarrow> real \<Rightarrow> real list \<times> Matrix" where
  "intrinsicSpectrum eig H tolerance =
     (case eig (symmetrize H) of (realEigenvalues, eigVecMatrix) \<Rightarrow>
        (let cleaned = map (\<lambda>v. if \<bar>v\<bar> < tolerance then 0 else v) realEigenvalues;
             indices = jsSort (\<lambda>a b. cleaned ! a - cleaned ! b) [0..<length cleaned];
             sortedValues = map (\<lambda>i. cleaned ! i) indices;
             sortedVectors = map (\<lambda>i. column eigVecMatrix i) indices
         in (sortedValues, sortedVectors)))"

subsection \<open>computeHessian\<close>

text \<open>The loop that replaces a non-finite entry of \<open>HRoll\<close> by 0 changes nothing on real
  numbers and is left out.\<close>

definition computeHessian ::
  "SVD \<Rightarrow> EigenvalueDecomposition \<Rightarrow> Configuration \<Rightarrow> Matrix \<Rightarrow> error + HessianResult" where
  "computeHessian svd eig config R =
     (let rollDim = (if length R > 0 then length (R ! 0) else 0)
      in if rollDim = 0
         then Inr \<lparr> hessian = [], eigenvalues = [], eigenvectors = [],
                    isLocalMinimum = True, indexMorseCritical = 0 \<rparr>
         else
           (let HEucl = buildEuclideanHessian svd config
            in case buildContactMatrix config of
                 Inl e \<Rightarrow> Inl e
               | Inr A \<Rightarrow>
                   (let grad = perimeterGradient svd config;
                        lambdas = solveLagrangeMultipliers svd A grad;
                        HGeom = buildGeometricHessian config lambdas;
                        dim = 2 * n config;
                        HTotal = map (\<lambda>i. map (\<lambda>j. HEucl ! i ! j + HGeom ! i ! j) [0..<dim])
                                   [0..<dim];
                        HRoll = projectToRoll HTotal R
                    in case intrinsicSpectrum eig HRoll (1 / 10 ^ 10) of
                         (evals, evecs) \<Rightarrow>
                           (let negativeTolerance = 1 / 10 ^ 6;
                                morse = length (filter (\<lambda>v. v < - negativeTolerance) evals);
                                localMin = (morse = 0)
                            in Inr \<lparr> hessian = HRoll, eigenvalues = evals,
                                       eigenvectors = evecs, isLocalMinimum = localMin,
                                       indexMorseCritical = morse \<rparr>))))"

section \<open>Notions used by the claims\<close>

subsection \<open>Contact graphs\<close>

definition inRange :: "nat \<Rightarrow> Contact list \<Rightarrow> bool" where
  "inRange k cs = (\<forall>(u, v) \<in> set cs. 0 \<le> u \<and> u < int k \<and> 0 \<le> v \<and> v < int k)"

definition noSelfLoops :: "Contact list \<Rightarrow> bool" where
  "noSelfLoops cs = (\<forall>(u, v) \<in> set cs. u \<noteq> v)"

definition undirected :: "Contact \<Rightarrow> Contact" where
  "undirected c = (case c of (u, v) \<Rightarrow> (min u v, max u v))"

definition noDuplicates :: "Contact list \<Rightarrow> bool" where
  "noDuplicates cs = distinct (map undirected cs)"

definition edgeRel :: "Contact list \<Rightarrow> (int \<times> int) set" where
  "edgeRel cs = {(a, b). (a, b) \<in> set cs \<or> (b, a) \<in> set cs}"

definition connectedGraph :: "nat \<Rightarrow> Contact list \<Rightarrow> bool" where
  "connectedGraph k cs = (\<forall>v. 0 \<le> v \<and> v < int k \<longrightarrow> (0, v) \<in> (edgeRel cs)\<^sup>*)"

definition degree :: "Contact list \<Rightarrow> int \<Rightarrow> nat" where
  "degree cs i = length (filter (\<lambda>(u, v). u = i) cs) + length (filter (\<lambda>(u, v). v = i) cs)"

definition adjRel :: "int list list \<Rightarrow> (int \<times> int) set" where
  "adjRel adj = {(a, b). b \<in> set (adjGet adj a)}"

subsection \<open>Geometry\<close>



text \<open>All points lie on one line through \<open>p\<close> with direction \<open>d\<close> (on one point when \<open>d = 0\<close>).\<close>

definition collinearPoints :: "Point list \<Rightarrow> bool" where
  "collinearPoints ps =
     (\<exists>p d. \<forall>q \<in> set ps. \<exists>t. q = (fst p + t * fst d, snd p + t * snd d))"

text \<open>The largest distance between two of the hull points.\<close>

definition maxPairDistance :: "Point list \<Rightarrow> nat list \<Rightarrow> real" where
  "maxPairDistance ps h =
     Max {distance (ps ! (h ! i)) (ps ! (h ! j)) | i j. i < j \<and> j < length h}"

text \<open>
  What the singular value decomposition owes its caller on a matrix \<open>M\<close> with two columns:
  two singular values in descending order, not negative, whose squares are the two
  eigenvalues of the 2 x 2 matrix \<open>M\<^sup>T M\<close>; that is, their sum is its trace and their
  product is its determinant.
\<close>

definition exactSingularValues :: "SVD \<Rightarrow> Matrix \<Rightarrow> bool" where
  "exactSingularValues svd M =
     (case svd M of (U, s, V) \<Rightarrow>
        length s = 2 \<and> 0 \<le> s ! 1 \<and> s ! 1 \<le> s ! 0
        \<and> (s ! 0) ^ 2 + (s ! 1) ^ 2
            = sum_list (map (\<lambda>r. (r ! 0) ^ 2) M) + sum_list (map (\<lambda>r. (r ! 1) ^ 2) M)
        \<and> (s ! 0) ^ 2 * (s ! 1) ^ 2
            = sum_list (map (\<lambda>r. (r ! 0) ^ 2) M) * sum_list (map (\<lambda>r. (r ! 1) ^ 2) M)
              - (sum_list (map (\<lambda>r. r ! 0 * r ! 1) M)) ^ 2)"

section \<open>Three disks in an equilateral triangle\<close>

subsection \<open>The configuration\<close>

text \<open>
  Three disks of radius 1 with their centers at the corners of an equilateral triangle of
  side 1, and the three pairwise contacts.
\<close>

definition triangle :: Configuration where
  "triangle =
     createConfiguration [(0, 0), (1, 0), (1 / 2, sqrt 3 / 2)] [(0, 1), (1, 2), (0, 2)] 1 [] []"

text \<open>
  Its contact matrix \<open>A\<close>, the matrix \<open>A\<^sup>T A\<close> that \<^const>\<open>rollingSpaceBasis\<close> decomposes, and
  the sum of its Euclidean and geometric Hessians for the multipliers \<open>1, 1, 1\<close>.
\<close>

definition triangleA :: Matrix where
  "triangleA = [[- 1, 0, 1, 0, 0, 0],
                [0, 0, 1 / 2, - (sqrt 3 / 2), - (1 / 2), sqrt 3 / 2],
                [- (1 / 2), - (sqrt 3 / 2), 0, 0, 1 / 2, sqrt 3 / 2]]"

definition triangleGram :: Matrix where
  "triangleGram = [[5 / 4, sqrt 3 / 4, - 1, 0, - (1 / 4), - (sqrt 3 / 4)],
                   [sqrt 3 / 4, 3 / 4, 0, 0, - (sqrt 3 / 4), - (3 / 4)],
                   [- 1, 0, 5 / 4, - (sqrt 3 / 4), - (1 / 4), sqrt 3 / 4],
                   [0, 0, - (sqrt 3 / 4), 3 / 4, sqrt 3 / 4, - (3 / 4)],
                   [- (1 / 4), - (sqrt 3 / 4), - (1 / 4), sqrt 3 / 4, 1 / 2, 0],
                   [- (sqrt 3 / 4), - (3 / 4), sqrt 3 / 4, - (3 / 4), 0, 3 / 2]]"

definition triangleH :: Matrix where
  "triangleH = [[3 / 8, - (sqrt 3 / 8), 0, 0, - (3 / 8), sqrt 3 / 8],
                [- (sqrt 3 / 8), 5 / 8, 0, - (1 / 2), sqrt 3 / 8, - (1 / 8)],
                [0, 0, 3 / 8, sqrt 3 / 8, - (3 / 8), - (sqrt 3 / 8)],
                [0, - (1 / 2), sqrt 3 / 8, 5 / 8, - (sqrt 3 / 8), - (1 / 8)],
                [- (3 / 8), sqrt 3 / 8, - (3 / 8), - (sqrt 3 / 8), 3 / 4, 0],
                [sqrt 3 / 8, - (1 / 8), - (sqrt 3 / 8), - (1 / 8), 0, 1 / 4]]"

subsection \<open>What the decompositions owe their caller\<close>

text \<open>
  The eigenvalue decomposition returns the eigenvalues \<open>sp\<close>, in any order, and an
  eigenvector matrix with as many rows as \<open>M\<close>.
\<close>

definition spectrumOf :: "EigenvalueDecomposition \<Rightarrow> Matrix \<Rightarrow> real multiset \<Rightarrow> bool" where
  "spectrumOf eig M sp = (case eig M of (ev, V) \<Rightarrow> mset ev = sp \<and> length V = length M)"

text \<open>
  An exact eigenvalue decomposition of a symmetric matrix \<open>M\<close>: the columns of \<open>V\<close> are
  eigenvectors for the values of \<open>ev\<close>, that is \<open>M V = V diag ev\<close>, and \<open>V\<close> is orthogonal,
  \<open>V\<^sup>T V = V V\<^sup>T = 1\<close>.
\<close>

definition exactEigen :: "EigenvalueDecomposition \<Rightarrow> Matrix \<Rightarrow> bool" where
  "exactEigen eig M =
     (case eig M of (ev, V) \<Rightarrow>
        length ev = length M \<and> length V = length M \<and> (\<forall>row \<in> set V. length row = length M)
        \<and> (\<forall>i < length M. \<forall>j < length M.
              (\<Sum>k < length M. M ! i ! k * V ! k ! j) = V ! i ! j * ev ! j)
        \<and> (\<forall>i < length M. \<forall>j < length M.
              (\<Sum>k < length M. V ! k ! i * V ! k ! j) = (if i = j then 1 else 0))
        \<and> (\<forall>i < length M. \<forall>j < length M.
              (\<Sum>k < length M. V ! i ! k * V ! j ! k) = (if i = j then 1 else 0)))"

text \<open>
  An exact thin singular value decomposition \<open>M = U diag S V\<^sup>T\<close> of a matrix of full column
  rank: \<open>U\<close> has orthonormal columns, \<open>V\<close> is orthogonal, and every singular value is above
  the threshold that \<^const>\<open>solveLagrangeMultipliers\<close> applies.
\<close>

definition exactThinSVD :: "SVD \<Rightarrow> Matrix \<Rightarrow> bool" where
  "exactThinSVD svd M =
     (case svd M of (U, S, V) \<Rightarrow>
        length U = length M \<and> (\<forall>row \<in> set U. length row = numCols M)
        \<and> length S = numCols M
        \<and> length V = numCols M \<and> (\<forall>row \<in> set V. length row = numCols M)
        \<and> (\<forall>k < length M. \<forall>j < numCols M.
              M ! k ! j = (\<Sum>i < numCols M. U ! k ! i * S ! i * V ! j ! i))
        \<and> (\<forall>i < numCols M. \<forall>i' < numCols M.
              (\<Sum>k < length M. U ! k ! i * U ! k ! i') = (if i = i' then 1 else 0))
        \<and> (\<forall>j < numCols M. \<forall>j' < numCols M.
              (\<Sum>i < numCols M. V ! j ! i * V ! j' ! i) = (if j = j' then 1 else 0))
        \<and> (\<forall>i < numCols M. 1 / 10 ^ 10 * maxOf S < S ! i))"

subsection \<open>Exact decompositions for the triangle\<close>

text \<open>
  The singular value decomposition of the transposed contact matrix, and of the centred
  positions (the only matrix with three rows that is decomposed).
\<close>

definition triangleU :: Matrix where
  "triangleU = [[- (1 / 2), - (1 / sqrt 3), 0],
                [- (sqrt 3 / 6), 0, sqrt 3 / 3],
                [1 / 2, 1 / (2 * sqrt 3), 1 / 2],
                [- (sqrt 3 / 6), 1 / 2, - (sqrt 3 / 6)],
                [0, 1 / (2 * sqrt 3), - (1 / 2)],
                [sqrt 3 / 3, - (1 / 2), - (sqrt 3 / 6)]]"

definition triangleS :: "real list" where
  "triangleS = [sqrt 3, sqrt 3 / sqrt 2, sqrt 3 / sqrt 2]"

definition triangleV :: Matrix where
  "triangleV = [[1 / sqrt 3, 1 / sqrt 2, 1 / (sqrt 2 * sqrt 3)],
                [1 / sqrt 3, - (1 / sqrt 2), 1 / (sqrt 2 * sqrt 3)],
                [1 / sqrt 3, 0, - (2 / (sqrt 2 * sqrt 3))]]"

definition triangleSVD :: SVD where
  "triangleSVD M =
     (if length M = 3
      then ([[- (1 / sqrt 2), - (sqrt 3 / (3 * sqrt 2))],
             [1 / sqrt 2, - (sqrt 3 / (3 * sqrt 2))],
             [0, 2 * sqrt 3 / (3 * sqrt 2)]],
            [sqrt 2 / 2, sqrt 2 / 2],
            [[1, 0], [0, 1]])
      else (triangleU, triangleS, triangleV))"

text \<open>
  An orthonormal eigenbasis of \<^const>\<open>triangleGram\<close>: two translations and the rotation
  about the centroid for the eigenvalue 0, then the columns of \<^const>\<open>triangleU\<close>.
  \<open>triangleR\<close> holds its first three columns. The projection of \<^const>\<open>triangleH\<close> to them
  is the diagonal matrix of \<open>0, 0, 3/2\<close>, the only matrix with three rows that is decomposed.
\<close>

definition triangleEigV :: Matrix where
  "triangleEigV = [[sqrt 3 / 3, 0, sqrt 3 / 6, - (1 / 2), - (sqrt 3 / 3), 0],
                   [0, sqrt 3 / 3, - (1 / 2), - (sqrt 3 / 6), 0, sqrt 3 / 3],
                   [sqrt 3 / 3, 0, sqrt 3 / 6, 1 / 2, sqrt 3 / 6, 1 / 2],
                   [0, sqrt 3 / 3, 1 / 2, - (sqrt 3 / 6), 1 / 2, - (sqrt 3 / 6)],
                   [sqrt 3 / 3, 0, - (sqrt 3 / 3), 0, sqrt 3 / 6, - (1 / 2)],
                   [0, sqrt 3 / 3, 0, sqrt 3 / 3, - (1 / 2), - (sqrt 3 / 6)]]"

definition triangleR :: Matrix where
  "triangleR = [[sqrt 3 / 3, 0, sqrt 3 / 6],
                [0, sqrt 3 / 3, - (1 / 2)],
                [sqrt 3 / 3, 0, sqrt 3 / 6],
                [0, sqrt 3 / 3, 1 / 2],
                [sqrt 3 / 3, 0, - (sqrt 3 / 3)],
                [0, sqrt 3 / 3, 0]]"

definition triangleEig :: EigenvalueDecomposition where
  "triangleEig M =
     (if length M = 6 then ([0, 0, 0, 3, 3 / 2, 3 / 2], triangleEigV)
      else ([0, 0, 3 / 2], [[1, 0, 0], [0, 1, 0], [0, 0, 1]]))"

section \<open>The graph validator: lemmas\<close>

subsection \<open>Breadth-first search\<close>
lemma visitNeighbors_sets:
  "visitNeighbors nb (vis, q) = (vis', q') \<Longrightarrow>
   set vis' = set vis \<union> set nb \<and> set q' = set q \<union> (set nb - set vis) \<and>
   (distinct vis \<longrightarrow> distinct vis')"
proof (induction nb arbitrary: vis q)
  case Nil
  then show ?case by simp
next
  case (Cons x xs)
  show ?case
  proof (cases "x \<in> set vis")
    case True
    with Cons.prems have "visitNeighbors xs (vis, q) = (vis', q')" by simp
    from Cons.IH [OF this] True show ?thesis by auto
  next
    case False
    with Cons.prems have "visitNeighbors xs (vis @ [x], q @ [x]) = (vis', q')" by simp
    from Cons.IH [OF this] False show ?thesis by auto
  qed
qed

lemma bfsLoop_invariant:
  "set q \<subseteq> set vis \<Longrightarrow> distinct vis \<Longrightarrow>
   \<forall>a \<in> set vis - set q. set (adjGet adj a) \<subseteq> set vis \<Longrightarrow>
   distinct (bfsLoop adj vis q) \<and> set vis \<subseteq> set (bfsLoop adj vis q) \<and>
   (\<forall>a \<in> set (bfsLoop adj vis q). set (adjGet adj a) \<subseteq> set (bfsLoop adj vis q)) \<and>
   set (bfsLoop adj vis q) \<subseteq> (adjRel adj)\<^sup>* `` set vis"
proof (induction adj vis q rule: bfsLoop.induct)
  case (1 adj visited queue)
  show ?case
  proof (cases queue)
    case Nil
    then have "bfsLoop adj visited queue = visited"
      by (subst bfsLoop.simps) simp
    with "1.prems" Nil show ?thesis by auto
  next
    case (Cons node rest)
    obtain vis' q' where vn: "visitNeighbors (adjGet adj node) (visited, rest) = (vis', q')"
      by (cases "visitNeighbors (adjGet adj node) (visited, rest)") auto
    from visitNeighbors_sets [OF vn]
    have sv: "set vis' = set visited \<union> set (adjGet adj node)"
      and sq: "set q' = set rest \<union> (set (adjGet adj node) - set visited)"
      and dv: "distinct vis'" using "1.prems"(2) by auto
    have node: "node \<in> set visited" using "1.prems"(1) Cons by auto
    have p1: "set q' \<subseteq> set vis'" using sv sq "1.prems"(1) Cons by auto
    have p3: "\<forall>a \<in> set vis' - set q'. set (adjGet adj a) \<subseteq> set vis'"
    proof
      fix a assume a: "a \<in> set vis' - set q'"
      then have av: "a \<in> set visited" and ar: "a \<notin> set rest" using sv sq by auto
      show "set (adjGet adj a) \<subseteq> set vis'"
      proof (cases "a = node")
        case True
        then show ?thesis using sv by auto
      next
        case False
        then have "a \<in> set visited - set queue" using av ar Cons by auto
        then have "set (adjGet adj a) \<subseteq> set visited" using "1.prems"(3) by blast
        then show ?thesis using sv by auto
      qed
    qed
    have eq: "bfsLoop adj visited queue = bfsLoop adj vis' q'"
      using Cons vn by (subst bfsLoop.simps) simp
    have ih: "distinct (bfsLoop adj vis' q') \<and> set vis' \<subseteq> set (bfsLoop adj vis' q') \<and>
      (\<forall>a \<in> set (bfsLoop adj vis' q'). set (adjGet adj a) \<subseteq> set (bfsLoop adj vis' q')) \<and>
      set (bfsLoop adj vis' q') \<subseteq> (adjRel adj)\<^sup>* `` set vis'"
      using "1.IH" [OF Cons vn [symmetric] p1 dv p3] .
    have "(adjRel adj)\<^sup>* `` set vis' \<subseteq> (adjRel adj)\<^sup>* `` set visited"
    proof
      fix b assume "b \<in> (adjRel adj)\<^sup>* `` set vis'"
      then obtain a where a: "a \<in> set vis'" and ab: "(a, b) \<in> (adjRel adj)\<^sup>*" by auto
      show "b \<in> (adjRel adj)\<^sup>* `` set visited"
      proof (cases "a \<in> set visited")
        case True
        with ab show ?thesis by auto
      next
        case False
        with a sv have "a \<in> set (adjGet adj node)" by auto
        then have "(node, a) \<in> adjRel adj" by (simp add: adjRel_def)
        with ab have "(node, b) \<in> (adjRel adj)\<^sup>*" by (simp add: converse_rtrancl_into_rtrancl)
        with node show ?thesis by auto
      qed
    qed
    with ih eq sv show ?thesis by auto
  qed
qed

lemma bfsLoop_start:
  "distinct (bfsLoop adj [0] [0]) \<and> set (bfsLoop adj [0] [0]) = (adjRel adj)\<^sup>* `` {0}"
proof -
  let ?r = "bfsLoop adj [0] [0]"
  have inv: "distinct ?r \<and> set [0] \<subseteq> set ?r \<and>
     (\<forall>a \<in> set ?r. set (adjGet adj a) \<subseteq> set ?r) \<and> set ?r \<subseteq> (adjRel adj)\<^sup>* `` set [0]"
    by (rule bfsLoop_invariant) auto
  have "b \<in> set ?r" if "(0, b) \<in> (adjRel adj)\<^sup>*" for b
    using that
  proof (induction rule: rtrancl_induct)
    case base
    then show ?case using inv by auto
  next
    case (step y z)
    then show ?case using inv by (auto simp: adjRel_def)
  qed
  then show ?thesis using inv by auto
qed

lemma length_adjAdd [simp]: "length (adjAdd adj u v) = length adj"
  by (simp add: adjAdd_def)

lemma adjGet_adjAdd:
  "set (adjGet (adjAdd adj u v) a) =
   set (adjGet adj a) \<union> (if a = u \<and> 0 \<le> u \<and> u < int (length adj) then {v} else {})"
proof (cases "0 \<le> u \<and> u < int (length adj)")
  case False
  then show ?thesis by (auto simp: adjAdd_def)
next
  case True
  then have lt: "nat u < length adj" by linarith
  show ?thesis
  proof (cases "a = u")
    case True
    with lt \<open>0 \<le> u \<and> u < int (length adj)\<close> show ?thesis
      by (auto simp: adjAdd_def adjGet_def setAdd_def)
  next
    case False
    then have "0 \<le> a \<Longrightarrow> nat a \<noteq> nat u" using True by linarith
    with True lt show ?thesis
      by (auto simp: adjAdd_def adjGet_def)
  qed
qed

lemma foldl_adj_length:
  "length (foldl (\<lambda>adj (u, v). adjAdd (adjAdd adj u v) v u) adj0 cs) = length adj0"
  by (induction cs arbitrary: adj0) (auto split: prod.splits)

lemma foldl_adj_set:
  "set (adjGet (foldl (\<lambda>adj (u, v). adjAdd (adjAdd adj u v) v u) adj0 cs) a) =
   set (adjGet adj0 a) \<union>
   {b. 0 \<le> a \<and> a < int (length adj0) \<and> ((a, b) \<in> set cs \<or> (b, a) \<in> set cs)}"
proof (induction cs arbitrary: adj0)
  case Nil
  then show ?case by simp
next
  case (Cons c cs)
  obtain u v where c: "c = (u, v)" by (cases c)
  show ?case
    unfolding c foldl_Cons prod.case Cons.IH
    by (auto simp: adjGet_adjAdd split: if_splits)
qed

lemma adjGet_replicate [simp]: "adjGet (replicate k []) a = []"
proof (cases "0 \<le> a \<and> a < int k")
  case True
  then have "nat a < k" by linarith
  then show ?thesis by (simp add: adjGet_def)
next
  case False
  then show ?thesis by (auto simp: adjGet_def)
qed

lemma buildAdjacencyList_set:
  "set (adjGet (buildAdjacencyList k cs) a) =
   {b. 0 \<le> a \<and> a < int k \<and> ((a, b) \<in> set cs \<or> (b, a) \<in> set cs)}"
  unfolding buildAdjacencyList_def foldl_adj_set by simp

lemma adjRel_build:
  "inRange k cs \<Longrightarrow> adjRel (buildAdjacencyList k cs) = edgeRel cs"
  unfolding adjRel_def edgeRel_def buildAdjacencyList_set
  by (auto simp: inRange_def)

lemma reach_inRange:
  assumes "inRange k cs" "0 < k" "(0, v) \<in> (edgeRel cs)\<^sup>*"
  shows "0 \<le> v \<and> v < int k"
  using assms(3)
proof (induction rule: rtrancl_induct)
  case base
  then show ?case using assms(2) by simp
next
  case (step y z)
  then show ?case using assms(1) by (auto simp: edgeRel_def inRange_def)
qed

lemma isConnected_iff:
  assumes "inRange k cs"
  shows "isConnected k cs \<longleftrightarrow> connectedGraph k cs"
proof -
  consider "k = 0" | "k = 1" | "k \<ge> 2" "cs = []" | "k \<ge> 2" "cs \<noteq> []" by linarith
  then show ?thesis
  proof cases
    case 1
    then show ?thesis by (auto simp: isConnected_def connectedGraph_def)
  next
    case 2
    have "(0, v) \<in> (edgeRel cs)\<^sup>*" if "0 \<le> v" "v < 1" for v :: int
    proof -
      from that have "v = 0" by linarith
      then show ?thesis by simp
    qed
    with 2 show ?thesis by (simp add: isConnected_def connectedGraph_def)
  next
    case 3
    have "(0, 1) \<notin> (edgeRel [])\<^sup>*"
      by (auto simp: edgeRel_def)
    moreover have "(0::int) \<le> 1 \<and> 1 < int k" using 3 by simp
    ultimately have "\<not> connectedGraph k cs" unfolding connectedGraph_def using 3(2) by blast
    with 3 show ?thesis by (simp add: isConnected_def)
  next
    case 4
    let ?r = "bfsLoop (buildAdjacencyList k cs) [0] [0]"
    have d: "distinct ?r" and s: "set ?r = (edgeRel cs)\<^sup>* `` {0}"
      using bfsLoop_start [of "buildAdjacencyList k cs"] adjRel_build [OF assms] by auto
    have sub: "set ?r \<subseteq> {0..<int k}"
      using reach_inRange [OF assms] 4(1) s by auto
    have len: "length ?r = card (set ?r)" using d by (simp add: distinct_card)
    have "length ?r = k \<longleftrightarrow> set ?r = {0..<int k}"
    proof
      assume "length ?r = k"
      then have "card (set ?r) = card {0..<int k}" using len by simp
      with sub show "set ?r = {0..<int k}" by (intro card_subset_eq) auto
    next
      assume "set ?r = {0..<int k}"
      then show "length ?r = k" using len by simp
    qed
    also have "\<dots> \<longleftrightarrow> connectedGraph k cs"
      using sub unfolding s connectedGraph_def by auto
    finally show ?thesis using 4 by (simp add: isConnected_def)
  qed
qed

subsection \<open>Edge keys, degrees and the search loops\<close>

lemma digit_inj: "a < 10 \<Longrightarrow> b < 10 \<Longrightarrow> digit a = digit b \<Longrightarrow> a = b"
proof -
  assume a: "a < 10" and b: "b < 10" and e: "digit a = digit b"
  from e have "of_char (char_of (48 + a) :: char) = (of_char (char_of (48 + b) :: char) :: nat)"
    by (simp add: digit_def)
  then have "(48 + a) mod 256 = (48 + b) mod 256" by (simp add: of_char_of)
  with a b show "a = b" by simp
qed

lemma digit_not_minus: "d < 10 \<Longrightarrow> digit d \<noteq> CHR ''-''"
proof
  assume d: "d < 10" and e: "digit d = CHR ''-''"
  from e have "of_char (char_of (48 + d) :: char) = (of_char CHR ''-'' :: nat)"
    by (simp add: digit_def)
  then have "(48 + d) mod 256 = 45" by (simp add: of_char_of)
  with d show False by simp
qed

lemma showNat_not_Nil: "showNat k \<noteq> []"
  by (subst showNat.simps) simp

lemma showNat_no_minus: "CHR ''-'' \<notin> set (showNat k)"
proof (induction k rule: showNat.induct)
  case (1 k)
  show ?case
  proof (cases "k < 10")
    case True
    then show ?thesis using digit_not_minus [of k] by (subst showNat.simps) auto
  next
    case False
    then have "k mod 10 < 10" by simp
    with False 1 digit_not_minus [of "k mod 10"] show ?thesis
      by (subst showNat.simps) auto
  qed
qed

lemma showNat_inj: "showNat a = showNat b \<Longrightarrow> a = b"
proof (induction a arbitrary: b rule: showNat.induct)
  case (1 k)
  show ?case
  proof (cases "k < 10")
    case True
    show ?thesis
    proof (cases "b < 10")
      case b: True
      from "1.prems" True b have "digit k = digit b"
        by (simp add: showNat.simps [of k] showNat.simps [of b])
      with True b show ?thesis by (rule digit_inj)
    next
      case b: False
      from "1.prems" True b have "showNat (b div 10) = []"
        by (simp add: showNat.simps [of k] showNat.simps [of b])
      then show ?thesis using showNat_not_Nil by blast
    qed
  next
    case False
    show ?thesis
    proof (cases "b < 10")
      case b: True
      from "1.prems" False b have "showNat (k div 10) = []"
        by (simp add: showNat.simps [of k] showNat.simps [of b])
      then show ?thesis using showNat_not_Nil by blast
    next
      case b: False
      from "1.prems" False b
      have e1: "showNat (k div 10) = showNat (b div 10)"
        and e2: "digit (k mod 10) = digit (b mod 10)"
        by (simp_all add: showNat.simps [of k] showNat.simps [of b])
      from "1.IH" [OF False e1] have d: "k div 10 = b div 10" .
      have "k mod 10 = b mod 10" using e2 by (intro digit_inj) simp_all
      with d show ?thesis by (metis div_mult_mod_eq)
    qed
  qed
qed

lemma split_at_separator:
  "xs @ c # ys = xs' @ c # ys' \<Longrightarrow> c \<notin> set xs \<Longrightarrow> c \<notin> set xs' \<Longrightarrow> xs = xs' \<and> ys = ys'"
proof (induction xs arbitrary: xs')
  case Nil
  then show ?case by (cases xs') auto
next
  case (Cons x xs)
  then show ?case by (cases xs') auto
qed

lemma showInt_nonneg: "0 \<le> i \<Longrightarrow> showInt i = showNat (nat i)"
  by (simp add: showInt_def)

lemma edgeKey_norm:
  assumes "0 \<le> fst c" "0 \<le> snd c"
  shows "edgeKey c = showNat (nat (fst (undirected c))) @ CHR ''-'' # showNat (nat (snd (undirected c)))"
  using assms by (cases c) (auto simp: edgeKey_def undirected_def showInt_nonneg min_def max_def)

lemma edgeKey_eq_iff:
  assumes "0 \<le> fst c" "0 \<le> snd c" "0 \<le> fst d" "0 \<le> snd d"
  shows "edgeKey c = edgeKey d \<longleftrightarrow> undirected c = undirected d"
proof
  assume "undirected c = undirected d"
  then show "edgeKey c = edgeKey d" using assms by (simp add: edgeKey_norm)
next
  assume e: "edgeKey c = edgeKey d"
  have nn: "0 \<le> fst (undirected c)" "0 \<le> snd (undirected c)"
    "0 \<le> fst (undirected d)" "0 \<le> snd (undirected d)"
    using assms by (cases c; cases d; simp add: undirected_def)+
  from e have "showNat (nat (fst (undirected c))) = showNat (nat (fst (undirected d))) \<and>
     showNat (nat (snd (undirected c))) = showNat (nat (snd (undirected d)))"
    unfolding edgeKey_norm [OF assms(1,2)] edgeKey_norm [OF assms(3,4)]
    by (rule split_at_separator) (rule showNat_no_minus)+
  then have "nat (fst (undirected c)) = nat (fst (undirected d))"
    "nat (snd (undirected c)) = nat (snd (undirected d))"
    by (auto dest: showNat_inj)
  with nn have "fst (undirected c) = fst (undirected d)" "snd (undirected c) = snd (undirected d)"
    by linarith+
  then show "undirected c = undirected d"
    by (simp add: prod_eq_iff)
qed

lemma distinct_map_cong:
  "(\<And>x y. x \<in> set xs \<Longrightarrow> y \<in> set xs \<Longrightarrow> (f x = f y) = (g x = g y)) \<Longrightarrow>
   distinct (map f xs) = distinct (map g xs)"
proof (induction xs)
  case Nil
  then show ?case by simp
next
  case (Cons a xs)
  have "(f a \<in> f ` set xs) = (g a \<in> g ` set xs)"
    using Cons.prems [of a] by (auto simp: image_iff) 
  moreover have "distinct (map f xs) = distinct (map g xs)"
    using Cons.prems by (intro Cons.IH) auto
  ultimately show ?case by simp
qed

lemma findDuplicate_None:
  "findDuplicate cs ks = None \<longleftrightarrow> distinct (map edgeKey cs) \<and> set (map edgeKey cs) \<inter> set ks = {}"
  by (induction cs arbitrary: ks) auto

lemma findDuplicate_inRange:
  assumes "inRange k cs"
  shows "findDuplicate cs [] = None \<longleftrightarrow> noDuplicates cs"
proof -
  have "distinct (map edgeKey cs) = distinct (map undirected cs)"
  proof (rule distinct_map_cong)
    fix x y assume "x \<in> set cs" "y \<in> set cs"
    with assms have "0 \<le> fst x" "0 \<le> snd x" "0 \<le> fst y" "0 \<le> snd y"
      by (auto simp: inRange_def)
    then show "(edgeKey x = edgeKey y) = (undirected x = undirected y)"
      by (rule edgeKey_eq_iff)
  qed
  then show ?thesis by (simp add: findDuplicate_None noDuplicates_def)
qed

lemma length_incrAt [simp]: "length (incrAt ds u) = length ds"
  by (simp add: incrAt_def)

lemma nth_incrAt:
  "i < length ds \<Longrightarrow> incrAt ds u ! i = ds ! i + (if u = int i then 1 else 0)"
proof (cases "0 \<le> u \<and> u < int (length ds)")
  case True
  assume "i < length ds"
  moreover from True have "nat u < length ds" by linarith
  moreover have "(nat u = i) = (u = int i)" using True by linarith
  ultimately show ?thesis using True by (auto simp: incrAt_def nth_list_update)
next
  case False
  assume "i < length ds"
  with False show ?thesis by (auto simp: incrAt_def)
qed

lemma foldl_degrees:
  "length (foldl (\<lambda>ds (u, v). incrAt (incrAt ds u) v) ds0 cs) = length ds0 \<and>
   (\<forall>i < length ds0. foldl (\<lambda>ds (u, v). incrAt (incrAt ds u) v) ds0 cs ! i
      = ds0 ! i + degree cs (int i))"
proof (induction cs arbitrary: ds0)
  case Nil
  then show ?case by (simp add: degree_def)
next
  case (Cons c cs)
  obtain u v where c: "c = (u, v)" by (cases c)
  show ?case
    unfolding c foldl_Cons prod.case
    using Cons.IH [of "incrAt (incrAt ds0 u) v"]
    by (auto simp: nth_incrAt degree_def)
qed

lemma computeVertexDegrees_nth:
  "i < k \<Longrightarrow> computeVertexDegrees k cs ! i = degree cs (int i)"
  using foldl_degrees [of "replicate k 0" cs] by (simp add: computeVertexDegrees_def)

lemma findOverDegree_None:
  "findOverDegree k (computeVertexDegrees k cs) = None \<longleftrightarrow> (\<forall>i < k. degree cs (int i) \<le> 6)"
proof -
  have "(\<forall>i < k. \<not> 6 < computeVertexDegrees k cs ! i) = (\<forall>i < k. degree cs (int i) \<le> 6)"
    by (simp add: computeVertexDegrees_nth not_less)
  then show ?thesis by (simp add: findOverDegree_def find_None_iff Ball_def)
qed

lemma find_outOfRange_None: "List.find (outOfRange k) cs = None \<longleftrightarrow> inRange k cs"
  by (auto simp: find_None_iff inRange_def outOfRange_def not_le not_less)

lemma find_selfLoop_None: "List.find (\<lambda>(u, v). u = v) cs = None \<longleftrightarrow> noSelfLoops cs"
  by (auto simp: find_None_iff noSelfLoops_def)

lemma checkGraphValidity_accept:
  assumes "inRange (n config) (allContacts config)"
    and "noSelfLoops (allContacts config)"
    and "noDuplicates (allContacts config)"
    and "connectedGraph (n config) (allContacts config)"
    and "\<forall>i < n config. degree (allContacts config) (int i) \<le> 6"
  shows "checkGraphValidity config =
    \<lparr> isValid = True, expectedEdges = 2 * n config + 1,
      actualEdges = length (allContacts config),
      message =
        (if length (allContacts config) = 2 * n config + 1
         then ''Valid graph with expected edge count''
         else ''Valid graph ('' @ showNat (length (allContacts config)) @ '' edges, expected ''
                @ showNat (2 * n config + 1) @ '' for rigidity)'') \<rparr>"
proof -
  have 1: "List.find (outOfRange (n config)) (allContacts config) = None"
    using assms(1) by (simp add: find_outOfRange_None)
  have 2: "List.find (\<lambda>(u, v). u = v) (allContacts config) = None"
    using assms(2) by (simp add: find_selfLoop_None)
  have 3: "findDuplicate (allContacts config) [] = None"
    using assms(1,3) by (simp add: findDuplicate_inRange)
  have 4: "isConnected (n config) (allContacts config)"
    using assms(1,4) by (simp add: isConnected_iff)
  have 5: "findOverDegree (n config) (computeVertexDegrees (n config) (allContacts config)) = None"
    using assms(5) by (simp add: findOverDegree_None)
  show ?thesis
    unfolding checkGraphValidity_def Let_def 1 2 3 5 option.case using 4 by simp
qed

lemma checkGraphValidity_selfLoop:
  assumes "inRange (n config) (allContacts config)"
    and "\<not> noSelfLoops (allContacts config)"
  shows "\<exists>i. (i, i) \<in> set (allContacts config) \<and>
    checkGraphValidity config =
      invalid (length (allContacts config)) (''Self-loop detected at vertex '' @ showInt i)"
proof -
  have 1: "List.find (outOfRange (n config)) (allContacts config) = None"
    using assms(1) by (simp add: find_outOfRange_None)
  from assms(2) obtain c where c: "List.find (\<lambda>(u, v). u = v) (allContacts config) = Some c"
    using find_selfLoop_None [of "allContacts config"] by (cases "List.find (\<lambda>(u, v). u = v) (allContacts config)") auto
  obtain u v where uv: "c = (u, v)" by (cases c)
  from c uv have "u = v" "(u, v) \<in> set (allContacts config)"
    by (auto simp: find_Some_iff) (metis nth_mem)
  then show ?thesis
    unfolding checkGraphValidity_def Let_def 1 c uv option.case prod.case by auto
qed

lemma checkGraphValidity_disconnected:
  assumes "inRange (n config) (allContacts config)"
    and "noSelfLoops (allContacts config)"
    and "noDuplicates (allContacts config)"
    and "\<not> connectedGraph (n config) (allContacts config)"
  shows "checkGraphValidity config =
      invalid (length (allContacts config)) ''Graph is not connected''"
proof -
  have 1: "List.find (outOfRange (n config)) (allContacts config) = None"
    using assms(1) by (simp add: find_outOfRange_None)
  have 2: "List.find (\<lambda>(u, v). u = v) (allContacts config) = None"
    using assms(2) by (simp add: find_selfLoop_None)
  have 3: "findDuplicate (allContacts config) [] = None"
    using assms(1,3) by (simp add: findDuplicate_inRange)
  have 4: "\<not> isConnected (n config) (allContacts config)"
    using assms(1,4) by (simp add: isConnected_iff)
  show ?thesis
    unfolding checkGraphValidity_def Let_def 1 2 3 option.case using 4 by simp
qed

lemma find_first:
  assumes "\<forall>x \<in> set pre. \<not> P x" and "P y"
  shows "List.find P (pre @ y # post) = Some y"
  using assms by (induction pre) simp_all

lemma checkGraphValidity_first_selfLoop:
  assumes "inRange (n config) (allContacts config)"
    and "allContacts config = pre @ (i, i) # post"
    and "noSelfLoops pre"
  shows "checkGraphValidity config =
      invalid (length (allContacts config)) (''Self-loop detected at vertex '' @ showInt i)"
proof -
  have 1: "List.find (outOfRange (n config)) (allContacts config) = None"
    using assms(1) by (simp add: find_outOfRange_None)
  have "\<forall>c \<in> set pre. \<not> (case c of (u, v) \<Rightarrow> u = v)"
    using assms(3) by (auto simp: noSelfLoops_def)
  then have 2: "List.find (\<lambda>(u, v). u = v) (allContacts config) = Some (i, i)"
    unfolding assms(2) by (rule find_first) simp
  show ?thesis
    unfolding checkGraphValidity_def Let_def 1 2 option.case prod.case ..
qed

lemma checkGraphValidity_isValid:
  assumes "isValid (checkGraphValidity config)"
  shows "noSelfLoops (allContacts config) \<and> connectedGraph (n config) (allContacts config)"
proof -
  have 1: "List.find (outOfRange (n config)) (allContacts config) = None"
    using assms
    by (cases "List.find (outOfRange (n config)) (allContacts config)")
      (auto simp: checkGraphValidity_def Let_def invalid_def)
  have 2: "List.find (\<lambda>(u, v). u = v) (allContacts config) = None"
    using assms unfolding checkGraphValidity_def Let_def 1 option.case
    by (cases "List.find (\<lambda>(u, v). u = v) (allContacts config)")
      (auto simp: invalid_def)
  have 3: "findDuplicate (allContacts config) [] = None"
    using assms unfolding checkGraphValidity_def Let_def 1 2 option.case
    by (cases "findDuplicate (allContacts config) []") (auto simp: invalid_def)
  have 4: "isConnected (n config) (allContacts config)"
    using assms unfolding checkGraphValidity_def Let_def 1 2 3 option.case
    by (cases "isConnected (n config) (allContacts config)") (auto simp: invalid_def)
  from 1 have r: "inRange (n config) (allContacts config)" by (simp add: find_outOfRange_None)
  from 2 have "noSelfLoops (allContacts config)" by (simp add: find_selfLoop_None)
  moreover from 4 r have "connectedGraph (n config) (allContacts config)"
    by (simp add: isConnected_iff)
  ultimately show ?thesis by simp
qed

section \<open>Claims about the graph validator\<close>

text \<open>
  Claim C3. When all indices of the combined contacts lie in \<open>[0, n)\<close>, there is no
  self-loop and no duplicate undirected pair, every vertex is reachable from vertex 0 and no
  vertex has degree above 6, \<^const>\<open>checkGraphValidity\<close> returns \<open>isValid = true\<close> and
  \<open>expectedEdges = 2n + 1\<close>, whether or not the number of edges is \<open>2n + 1\<close>; the
  message is one fixed text when the count matches and another, different text when it does
  not.
\<close>

theorem checkGraphValidity_valid:
  assumes "inRange (n config) (allContacts config)"
    and "noSelfLoops (allContacts config)"
    and "noDuplicates (allContacts config)"
    and "connectedGraph (n config) (allContacts config)"
    and "\<forall>i < n config. degree (allContacts config) (int i) \<le> 6"
  shows "isValid (checkGraphValidity config) = True
    \<and> expectedEdges (checkGraphValidity config) = 2 * n config + 1
    \<and> actualEdges (checkGraphValidity config) = length (allContacts config)
    \<and> (length (allContacts config) = 2 * n config + 1 \<longrightarrow>
         message (checkGraphValidity config) = ''Valid graph with expected edge count'')
    \<and> (length (allContacts config) \<noteq> 2 * n config + 1 \<longrightarrow>
         message (checkGraphValidity config) =
           ''Valid graph ('' @ showNat (length (allContacts config)) @ '' edges, expected ''
             @ showNat (2 * n config + 1) @ '' for rigidity)'')
    \<and> ''Valid graph with expected edge count'' \<noteq>
           ''Valid graph ('' @ showNat (length (allContacts config)) @ '' edges, expected ''
             @ showNat (2 * n config + 1) @ '' for rigidity)''"
  by (simp add: checkGraphValidity_accept [OF assms])

theorem checkGraphValidity_valid_witness:
  "isValid (checkGraphValidity (createConfiguration [(0, 0), (2, 0)] [(0, 1)] 1 [] []))
   \<and> expectedEdges (checkGraphValidity (createConfiguration [(0, 0), (2, 0)] [(0, 1)] 1 [] [])) = 5
   \<and> message (checkGraphValidity (createConfiguration [(0, 0), (2, 0)] [(0, 1)] 1 [] [])) =
       ''Valid graph (1 edges, expected 5 for rigidity)''
   \<and> isValid (checkGraphValidity
       \<lparr> n = 6, positions = [], radii = [],
         contacts = [(0, 1), (0, 2), (0, 3), (0, 4), (0, 5), (1, 2), (1, 3), (1, 4), (1, 5), (2, 3)],
         latticeContacts = [(2, 4), (2, 5), (3, 4)], latticeShifts = [] \<rparr>)
   \<and> message (checkGraphValidity
       \<lparr> n = 6, positions = [], radii = [],
         contacts = [(0, 1), (0, 2), (0, 3), (0, 4), (0, 5), (1, 2), (1, 3), (1, 4), (1, 5), (2, 3)],
         latticeContacts = [(2, 4), (2, 5), (3, 4)], latticeShifts = [] \<rparr>) =
       ''Valid graph with expected edge count''"
proof -
  let ?a = "createConfiguration [(0, 0), (2, 0)] [(0, 1)] 1 [] []"
  let ?b = "\<lparr> n = 6, positions = [], radii = [],
         contacts = [(0, 1), (0, 2), (0, 3), (0, 4), (0, 5), (1, 2), (1, 3), (1, 4), (1, 5), (2, 3)],
         latticeContacts = [(2, 4), (2, 5), (3, 4)], latticeShifts = [] \<rparr>"
  have na: "n ?a = 2" and ca: "allContacts ?a = [(0, 1)]"
    by (simp_all add: createConfiguration_def allContacts_def)
  have a1: "inRange (n ?a) (allContacts ?a)" unfolding na ca by (simp add: inRange_def)
  have a2: "noSelfLoops (allContacts ?a)" unfolding ca by (simp add: noSelfLoops_def)
  have a3: "noDuplicates (allContacts ?a)" unfolding ca by (simp add: noDuplicates_def)
  have a4: "connectedGraph (n ?a) (allContacts ?a)"
    unfolding na ca connectedGraph_def
  proof (intro allI impI)
    fix v :: int assume "0 \<le> v \<and> v < int 2"
    then consider "v = 0" | "v = 1" by fastforce
    then show "(0, v) \<in> (edgeRel [(0, 1)])\<^sup>*"
      by cases (auto simp: edgeRel_def)
  qed
  have a5: "\<forall>i < n ?a. degree (allContacts ?a) (int i) \<le> 6"
    unfolding na ca by (simp add: degree_def)
  have nb: "n ?b = 6" and cb: "allContacts ?b =
     [(0, 1), (0, 2), (0, 3), (0, 4), (0, 5), (1, 2), (1, 3), (1, 4), (1, 5), (2, 3),
      (2, 4), (2, 5), (3, 4)]"
    by (simp_all add: allContacts_def)
  have b1: "inRange (n ?b) (allContacts ?b)" unfolding nb cb by (simp add: inRange_def)
  have b2: "noSelfLoops (allContacts ?b)" unfolding cb by (simp add: noSelfLoops_def)
  have b3: "noDuplicates (allContacts ?b)" unfolding cb
    by (simp add: noDuplicates_def undirected_def)
  have b4: "connectedGraph (n ?b) (allContacts ?b)"
    unfolding nb cb connectedGraph_def
  proof (intro allI impI)
    fix v :: int assume "0 \<le> v \<and> v < int 6"
    then consider "v = 0" | "v = 1" | "v = 2" | "v = 3" | "v = 4" | "v = 5" by fastforce
    then show "(0, v) \<in> (edgeRel [(0, 1), (0, 2), (0, 3), (0, 4), (0, 5), (1, 2), (1, 3), (1, 4),
        (1, 5), (2, 3), (2, 4), (2, 5), (3, 4)])\<^sup>*"
      by cases (auto simp: edgeRel_def)
  qed
  have b5: "\<forall>i < n ?b. degree (allContacts ?b) (int i) \<le> 6"
    unfolding nb cb
  proof (intro allI impI)
    fix i :: nat assume "i < 6"
    then consider "i = 0" | "i = 1" | "i = 2" | "i = 3" | "i = 4" | "i = 5" by fastforce
    then show "degree [(0, 1), (0, 2), (0, 3), (0, 4), (0, 5), (1, 2), (1, 3), (1, 4),
        (1, 5), (2, 3), (2, 4), (2, 5), (3, 4)] (int i) \<le> 6"
      by cases (simp_all add: degree_def)
  qed
  have s1: "showNat (Suc 0) = ''1''" "showNat 5 = ''5''" by code_simp+
  from checkGraphValidity_valid [OF a1 a2 a3 a4 a5] checkGraphValidity_valid [OF b1 b2 b3 b4 b5]
  show ?thesis unfolding na ca nb cb by (simp add: s1)
qed

lemma not_connected_two_of_three:
  assumes "set cs \<subseteq> {(0, 1)}"
  shows "\<not> connectedGraph 3 cs"
proof -
  have "v = 0 \<or> v = 1" if "(0, v) \<in> (edgeRel cs)\<^sup>*" for v
    using that assms by (induction rule: rtrancl_induct) (auto simp: edgeRel_def)
  then have "(0, 2) \<notin> (edgeRel cs)\<^sup>*" by fastforce
  then show ?thesis unfolding connectedGraph_def by (intro notI) (drule spec [of _ 2], simp)
qed

text \<open>
  Claim C9, as the validator implements it. A configuration with a self-loop contact is
  rejected, and so is one whose contact graph is not connected. The checks run in a fixed
  order and the first failure decides the message: when all indices are in range, the
  message names the vertex of the first self-loop contact of the combined list; when all
  indices are in range and there is neither a self-loop nor a duplicate pair, the message
  of a graph that is not connected is \<open>Graph is not connected\<close>.
\<close>

theorem checkGraphValidity_rejects:
  "((i, i) \<in> set (allContacts config) \<longrightarrow> isValid (checkGraphValidity config) = False)
   \<and> (inRange (n config) (allContacts config) \<and> allContacts config = pre @ (i, i) # post
        \<and> noSelfLoops pre \<longrightarrow>
      message (checkGraphValidity config) = ''Self-loop detected at vertex '' @ showInt i)
   \<and> (\<not> connectedGraph (n config) (allContacts config) \<longrightarrow>
      isValid (checkGraphValidity config) = False)
   \<and> (inRange (n config) (allContacts config) \<and> noSelfLoops (allContacts config) \<and>
      noDuplicates (allContacts config) \<and> \<not> connectedGraph (n config) (allContacts config) \<longrightarrow>
      message (checkGraphValidity config) = ''Graph is not connected'')"
proof (intro conjI impI)
  assume "(i, i) \<in> set (allContacts config)"
  then have "\<not> noSelfLoops (allContacts config)" by (auto simp: noSelfLoops_def)
  then show "isValid (checkGraphValidity config) = False"
    using checkGraphValidity_isValid [of config] by blast
next
  assume h: "inRange (n config) (allContacts config) \<and> allContacts config = pre @ (i, i) # post
        \<and> noSelfLoops pre"
  then have r: "inRange (n config) (allContacts config)"
    and c: "allContacts config = pre @ (i, i) # post" and p: "noSelfLoops pre" by blast+
  have "checkGraphValidity config =
      invalid (length (allContacts config)) (''Self-loop detected at vertex '' @ showInt i)"
    using r c p by (rule checkGraphValidity_first_selfLoop)
  then show "message (checkGraphValidity config) = ''Self-loop detected at vertex '' @ showInt i"
    by (simp add: invalid_def)
next
  assume "\<not> connectedGraph (n config) (allContacts config)"
  then show "isValid (checkGraphValidity config) = False"
    using checkGraphValidity_isValid [of config] by blast
next
  assume "inRange (n config) (allContacts config) \<and> noSelfLoops (allContacts config) \<and>
      noDuplicates (allContacts config) \<and> \<not> connectedGraph (n config) (allContacts config)"
  then have "checkGraphValidity config =
      invalid (length (allContacts config)) ''Graph is not connected''"
    by (intro checkGraphValidity_disconnected) simp_all
  then show "message (checkGraphValidity config) = ''Graph is not connected''"
    by (simp add: invalid_def)
qed

text \<open>
  Three disks with the contacts \<open>(0,1), (1,1), (2,2)\<close>: rejected, and the message names
  vertex 1, the first self-loop. Three disks with the one contact \<open>(0,1)\<close>: rejected as not
  connected.
\<close>

theorem checkGraphValidity_rejects_witness:
  "\<not> isValid (checkGraphValidity
       (createConfiguration [(0, 0), (2, 0), (5, 0)] [(0, 1), (1, 1), (2, 2)] 1 [] []))
   \<and> message (checkGraphValidity
       (createConfiguration [(0, 0), (2, 0), (5, 0)] [(0, 1), (1, 1), (2, 2)] 1 [] [])) =
       ''Self-loop detected at vertex 1''
   \<and> \<not> isValid (checkGraphValidity
       (createConfiguration [(0, 0), (2, 0), (5, 0)] [(0, 1)] 1 [] []))
   \<and> message (checkGraphValidity
       (createConfiguration [(0, 0), (2, 0), (5, 0)] [(0, 1)] 1 [] [])) =
       ''Graph is not connected''"
proof -
  let ?a = "createConfiguration [(0, 0), (2, 0), (5, 0)] [(0, 1), (1, 1), (2, 2)] 1 [] []"
  let ?b = "createConfiguration [(0, 0), (2, 0), (5, 0)] [(0, 1)] 1 [] []"
  have na: "n ?a = 3" and ca: "allContacts ?a = [(0, 1), (1, 1), (2, 2)]"
    by (simp_all add: createConfiguration_def allContacts_def)
  have nb: "n ?b = 3" and cb: "allContacts ?b = [(0, 1)]"
    by (simp_all add: createConfiguration_def allContacts_def)
  have a1: "(1, 1) \<in> set (allContacts ?a)" unfolding ca by simp
  have a2: "inRange (n ?a) (allContacts ?a) \<and> allContacts ?a = [(0, 1)] @ (1, 1) # [(2, 2)]
      \<and> noSelfLoops [(0, 1)]"
    unfolding na ca by (simp add: inRange_def noSelfLoops_def)
  have b1: "\<not> connectedGraph (n ?b) (allContacts ?b)"
    unfolding nb cb by (rule not_connected_two_of_three) simp
  have b2: "inRange (n ?b) (allContacts ?b) \<and> noSelfLoops (allContacts ?b) \<and>
      noDuplicates (allContacts ?b) \<and> \<not> connectedGraph (n ?b) (allContacts ?b)"
    using b1 unfolding nb cb by (simp add: inRange_def noSelfLoops_def noDuplicates_def)
  have s1: "showInt 1 = ''1''" by code_simp
  from checkGraphValidity_rejects [of 1 ?a "[(0, 1)]" "[(2, 2)]"] a1 a2
  have va: "isValid (checkGraphValidity ?a) = False"
    and ma: "message (checkGraphValidity ?a) = ''Self-loop detected at vertex '' @ showInt 1"
    by blast+
  from checkGraphValidity_rejects [of _ ?b] b1 b2
  have vb: "isValid (checkGraphValidity ?b) = False"
    and mb: "message (checkGraphValidity ?b) = ''Graph is not connected''"
    by blast+
  from va ma vb mb show ?thesis by (simp add: s1)
qed

text \<open>
  Claim C9 as it is written fails in the message, in two places. The configuration with the
  contacts \<open>(0,1), (0,1)\<close> on three disks has two components, and the validator answers
  \<open>Duplicate edge (0, 1)\<close>; the configuration with the contacts \<open>(0,7), (1,1)\<close> on three
  disks has the self-loop \<open>(1,1)\<close>, and the validator answers with the out-of-range contact
  \<open>(0, 7)\<close>, in a message that does not hold the digit 1.
\<close>

theorem checkGraphValidity_first_failure_counterexample:
  "\<not> connectedGraph 3 [(0, 1), (0, 1)]
   \<and> message (checkGraphValidity
        (createConfiguration [(0, 0), (2, 0), (5, 0)] [(0, 1), (0, 1)] 1 [] []))
       = ''Duplicate edge (0, 1)''
   \<and> message (checkGraphValidity
        (createConfiguration [(0, 0), (2, 0), (5, 0)] [(0, 1), (0, 1)] 1 [] []))
       \<noteq> ''Graph is not connected''
   \<and> message (checkGraphValidity
        (createConfiguration [(0, 0), (2, 0), (5, 0)] [(0, 7), (1, 1)] 1 [] []))
       = ''Invalid index in contact (0, 7): must be in [0, 2]''
   \<and> message (checkGraphValidity
        (createConfiguration [(0, 0), (2, 0), (5, 0)] [(0, 7), (1, 1)] 1 [] []))
       \<noteq> ''Self-loop detected at vertex 1''
   \<and> CHR ''1'' \<notin> set (message (checkGraphValidity
        (createConfiguration [(0, 0), (2, 0), (5, 0)] [(0, 7), (1, 1)] 1 [] [])))"
proof -
  have 1: "\<not> connectedGraph 3 [(0, 1), (0, 1)]"
    by (rule not_connected_two_of_three) simp
  have 2: "message (checkGraphValidity
        (createConfiguration [(0, 0), (2, 0), (5, 0)] [(0, 1), (0, 1)] 1 [] []))
       = ''Duplicate edge (0, 1)''"
    by code_simp
  have 3: "message (checkGraphValidity
        (createConfiguration [(0, 0), (2, 0), (5, 0)] [(0, 7), (1, 1)] 1 [] []))
       = ''Invalid index in contact (0, 7): must be in [0, 2]''"
    by code_simp
  show ?thesis unfolding 2 3 using 1 by simp
qed

section \<open>Claims about the constraint builder\<close>

subsection \<open>No contacts\<close>

text \<open>
  A configuration without contacts has the empty contact matrix, and
  \<^const>\<open>rollingSpaceBasis\<close> returns the empty list for it at its first line, before the
  eigen-decomposition is called; \<^const>\<open>computeConstraints\<close> turns that into the
  dimension 0.
\<close>

lemma computeConstraints_empty:
  assumes "contacts config = []"
  shows "buildContactMatrix config = Inr []
    \<and> rollingSpaceBasis eig [] (1 / 10 ^ 10) = []
    \<and> computeConstraints eig config =
        Inr \<lparr> contactMatrix = [], rollingMatrix = [], dimension = 0 \<rparr>"
  using assms by (simp add: buildContactMatrix_def rollingSpaceBasis_def computeConstraints_def)

text \<open>
  Claim C1 asks for the full basis of dimension \<open>2n\<close>, which is the kernel of the empty
  matrix and what the comment of \<^verbatim>\<open>rollingSpaceBasis\<close> promises (the kernel of \<open>A\<close>, no
  null space column missed). The code does not deliver it. Two disks without a contact get
  the empty rolling matrix and the dimension 0, not 4; a single disk, which is a valid
  contact graph, gets the dimension 0, not 2; and \<^const>\<open>computeHessian\<close> then takes the
  branch of the empty rolling space. The decomposition is never called, so it does not
  matter which one is passed.
\<close>

theorem computeConstraints_no_contacts_free_disks:
  "contacts (createConfiguration [(0, 0), (5, 0)] [] 1 [] []) = []
   \<and> n (createConfiguration [(0, 0), (5, 0)] [] 1 [] []) = 2
   \<and> computeConstraints (\<lambda>M. ([], [])) (createConfiguration [(0, 0), (5, 0)] [] 1 [] []) =
        Inr \<lparr> contactMatrix = [], rollingMatrix = [], dimension = 0 \<rparr>
   \<and> dimension \<lparr> contactMatrix = [], rollingMatrix = [], dimension = 0 \<rparr>
        \<noteq> 2 * n (createConfiguration [(0, 0), (5, 0)] [] 1 [] [])
   \<and> isValid (checkGraphValidity (createConfiguration [(0, 0)] [] 1 [] []))
   \<and> n (createConfiguration [(0, 0)] [] 1 [] []) = 1
   \<and> computeConstraints (\<lambda>M. ([], [])) (createConfiguration [(0, 0)] [] 1 [] []) =
        Inr \<lparr> contactMatrix = [], rollingMatrix = [], dimension = 0 \<rparr>
   \<and> computeHessian (\<lambda>M. ([], [], [])) (\<lambda>M. ([], []))
        (createConfiguration [(0, 0), (5, 0)] [] 1 [] []) [] =
        Inr \<lparr> hessian = [], eigenvalues = [], eigenvectors = [],
              isLocalMinimum = True, indexMorseCritical = 0 \<rparr>"
proof -
  have v: "isValid (checkGraphValidity (createConfiguration [(0, 0)] [] 1 [] []))"
    by code_simp
  show ?thesis
    using v
    by (simp add: createConfiguration_def buildContactMatrix_def rollingSpaceBasis_def
        computeConstraints_def computeHessian_def)
qed

subsection \<open>The rows of the contact matrix\<close>

lemma distance_alt: "sqrt (dx * dx + dy * dy) = sqrt (dx ^ 2 + dy ^ 2)"
  by (simp add: power2_eq_square)

lemma arraySet_length [simp]: "length (arraySet xs k v) = length xs"
  by (simp add: arraySet_def)








section \<open>Claims about the Hessian engine\<close>

text \<open>
  Claim C4. When the rolling matrix has no column (it is empty, or its first row is),
  \<^const>\<open>computeHessian\<close> returns the trivial result: empty Hessian, no eigenvalues, no
  eigenvectors, \<open>isLocalMinimum = true\<close> and Morse index 0.
\<close>

theorem computeHessian_rigid:
  assumes "R = [] \<or> R ! 0 = []"
  shows "computeHessian svd eig config R =
     Inr \<lparr> hessian = [], eigenvalues = [], eigenvectors = [],
           isLocalMinimum = True, indexMorseCritical = 0 \<rparr>"
  using assms by (auto simp: computeHessian_def)

theorem computeHessian_rigid_witness:
  "computeHessian (\<lambda>M. ([], [], [])) (\<lambda>M. ([], []))
      (createConfiguration [(0, 0), (2, 0)] [(0, 1)] 1 [] []) [[], [], [], []] =
     Inr \<lparr> hessian = [], eigenvalues = [], eigenvectors = [],
           isLocalMinimum = True, indexMorseCritical = 0 \<rparr>
   \<and> computeHessian (\<lambda>M. ([], [], [])) (\<lambda>M. ([], []))
      (createConfiguration [(0, 0), (2, 0)] [] 1 [] []) [] =
     Inr \<lparr> hessian = [], eigenvalues = [], eigenvectors = [],
           isLocalMinimum = True, indexMorseCritical = 0 \<rparr>"
proof -
  have a: "[[], [], [], []] = [] \<or> [[], [], [], []] ! 0 = ([] :: real list)" by simp
  have b: "([] :: Matrix) = [] \<or> ([] :: Matrix) ! 0 = []" by simp
  from computeHessian_rigid [OF a] computeHessian_rigid [OF b] show ?thesis by simp
qed

subsection \<open>Sorting the spectrum\<close>

lemma mset_insertBy: "mset (insertBy cmp x ys) = add_mset x (mset ys)"
  by (induction ys) auto

lemma mset_jsSort: "mset (jsSort cmp xs) = mset xs"
  unfolding jsSort_def by (induction xs) (auto simp: mset_insertBy)

lemma set_insertBy: "set (insertBy cmp x ys) = insert x (set ys)"
  by (induction ys) auto

lemma sorted_insertBy_key:
  "sorted (map key ys) \<Longrightarrow> sorted (map key (insertBy (\<lambda>a b. key a - key b) x ys))"
  by (induction ys) (auto simp: set_insertBy)

lemma sorted_jsSort_key: "sorted (map key (jsSort (\<lambda>a b. key a - key b) xs))"
  unfolding jsSort_def by (induction xs) (auto simp: sorted_insertBy_key)

lemma intrinsicSpectrum_sorted:
  assumes "intrinsicSpectrum eig H tol = (vals, vecs)"
  shows "sorted vals
    \<and> (\<exists>perm. mset perm = mset [0..<length (fst (eig (symmetrize H)))] \<and>
         vals = map (\<lambda>i. map (\<lambda>v. if \<bar>v\<bar> < tol then 0 else v) (fst (eig (symmetrize H))) ! i) perm \<and>
         vecs = map (\<lambda>i. column (snd (eig (symmetrize H))) i) perm)"
proof -
  obtain ev V where e: "eig (symmetrize H) = (ev, V)" by (cases "eig (symmetrize H)")
  define cleaned where "cleaned = map (\<lambda>v. if \<bar>v\<bar> < tol then 0 else v) ev"
  define indices where "indices = jsSort (\<lambda>a b. cleaned ! a - cleaned ! b) [0..<length cleaned]"
  from assms have v: "vals = map (\<lambda>i. cleaned ! i) indices"
    and w: "vecs = map (\<lambda>i. column V i) indices"
    by (simp_all add: intrinsicSpectrum_def e Let_def cleaned_def indices_def)
  have "sorted vals" unfolding v indices_def by (rule sorted_jsSort_key)
  moreover have "mset indices = mset [0..<length ev]"
    unfolding indices_def mset_jsSort by (simp add: cleaned_def)
  ultimately show ?thesis using v w unfolding e cleaned_def by auto
qed

text \<open>
  Claim C5. Every result that \<^const>\<open>computeHessian\<close> returns for a rolling matrix with at
  least one column has its eigenvalues in ascending order; eigenvalues and eigenvectors are
  the cleaned eigenvalues and the columns of the eigenvector matrix under one and the same
  permutation; the Morse index is the number of eigenvalues below \<open>-1e-6\<close>; and
  \<open>isLocalMinimum\<close> holds exactly when the Morse index is 0.
\<close>

theorem computeHessian_spectrum:
  assumes "computeHessian svd eig config R = Inr res"
    and "R \<noteq> []" and "R ! 0 \<noteq> []"
  shows "sorted (eigenvalues res)
    \<and> indexMorseCritical res = length (filter (\<lambda>v. v < - (1 / 10 ^ 6)) (eigenvalues res))
    \<and> (isLocalMinimum res \<longleftrightarrow> indexMorseCritical res = 0)
    \<and> (\<exists>perm. mset perm = mset [0..<length (fst (eig (symmetrize (hessian res))))] \<and>
         eigenvalues res =
           map (\<lambda>i. map (\<lambda>v. if \<bar>v\<bar> < 1 / 10 ^ 10 then 0 else v)
                       (fst (eig (symmetrize (hessian res)))) ! i) perm \<and>
         eigenvectors res = map (\<lambda>i. column (snd (eig (symmetrize (hessian res)))) i) perm)"
proof -
  from assms obtain A where A: "buildContactMatrix config = Inr A"
    by (auto simp: computeHessian_def Let_def split: sum.splits)
  define HRoll where "HRoll = projectToRoll
     (map (\<lambda>i. map (\<lambda>j. buildEuclideanHessian svd config ! i ! j
           + buildGeometricHessian config
               (solveLagrangeMultipliers svd A (perimeterGradient svd config)) ! i ! j)
         [0..<2 * n config]) [0..<2 * n config]) R"
  obtain vals vecs where sp: "intrinsicSpectrum eig HRoll (1 / 10 ^ 10) = (vals, vecs)"
    by (cases "intrinsicSpectrum eig HRoll (1 / 10 ^ 10)")
  from assms A sp have res: "res = \<lparr> hessian = HRoll, eigenvalues = vals, eigenvectors = vecs,
      isLocalMinimum = (length (filter (\<lambda>v. v < - (1 / 10 ^ 6)) vals) = 0),
      indexMorseCritical = length (filter (\<lambda>v. v < - (1 / 10 ^ 6)) vals) \<rparr>"
    by (simp add: computeHessian_def Let_def HRoll_def)
  from intrinsicSpectrum_sorted [OF sp] show ?thesis unfolding res by simp
qed

text \<open>Two disks at distance 2 without a contact, two of the four coordinates free.\<close>

lemma hull_two_disks: "convexHullIndices [(0, 0), (2, 0)] = [0, 1]"
  by code_simp

lemma farthestPair_two_disks: "farthestPair [(0, 0), (2, 0)] [0, 1] = (2, Some 0, Some 1)"
  by (simp add: farthestPair_def nthOpt_def distance_def)

lemma block_two_disks: "map (map ((*) 2)) (computeEdgeBlock (1, 0) 2) = [[0, 0], [0, 1]]"
  by (simp add: computeEdgeBlock_def)

lemma addEdgeBlocks_two_disks: "addEdgeBlocks (zeros 4 4) [[0, 0], [0, 1]] 0 1 =
   [[0, 0, 0, 0], [0, 1, 0, -1], [0, 0, 0, 0], [0, -1, 0, 1]]"
  by code_simp

lemma euclidean_two_disks: "buildEuclideanHessian svd (createConfiguration [(0, 0), (2, 0)] [] 1 [] []) =
   [[0, 0, 0, 0], [0, 1, 0, -1], [0, 0, 0, 0], [0, -1, 0, 1]]"
  by (simp add: buildEuclideanHessian_def createConfiguration_def hull_two_disks isCollinear_def
      euclideanCollinear_def farthestPair_two_disks block_two_disks addEdgeBlocks_two_disks Let_def del: One_nat_def)

lemma project_two_disks: "projectToRoll [[0, 0, 0, 0], [0, 1, 0, -1], [0, 0, 0, 0], [0, -1, 0, 1]]
     [[0, 0], [1, 0], [0, 0], [0, 1]] = [[1, -1], [-1, 1]]"
  by code_simp

lemma geometric_two_disks: "buildGeometricHessian (createConfiguration [(0, 0), (2, 0)] [] 1 [] []) [] = zeros 4 4"
  by (simp add: buildGeometricHessian_def createConfiguration_def)

lemma total_two_disks: "map (\<lambda>i. map (\<lambda>j. [[0, 0, 0, 0], [0, 1, 0, -1], [0, 0, 0, 0], [0, -1, 0, 1]] ! i ! j
      + zeros 4 4 ! i ! j) [0..<4]) [0..<4] = [[0, 0, 0, 0], [0, 1, 0, -1], [0, 0, 0, 0], [0, -1, 0, (1::real)]]"
  by code_simp

lemma symmetrize_two_disks: "symmetrize [[1, -1], [-1, 1]] = [[1, -1], [-1, 1]]"
  by code_simp

lemma sort_two_disks: "jsSort (\<lambda>a b. [2, 0] ! a - [2, 0 :: real] ! b) [0, Suc 0] = [Suc 0, 0]"
  by (simp add: jsSort_def)

lemma computeHessian_two_disks: "computeHessian (\<lambda>M. ([], [], []))
      (\<lambda>M. ([2, 0], [[1 / sqrt 2, 1 / sqrt 2], [- 1 / sqrt 2, 1 / sqrt 2]]))
      (createConfiguration [(0, 0), (2, 0)] [] 1 [] []) [[0, 0], [1, 0], [0, 0], [0, 1]] =
    Inr \<lparr> hessian = [[1, -1], [-1, 1]], eigenvalues = [0, 2],
          eigenvectors = [[1 / sqrt 2, 1 / sqrt 2], [1 / sqrt 2, - 1 / sqrt 2]],
          isLocalMinimum = True, indexMorseCritical = 0 \<rparr>"
proof -
  have n4: "2 * n (createConfiguration [(0, 0), (2, 0)] [] 1 [] []) = 4"
    by (simp add: createConfiguration_def)
  have bc: "buildContactMatrix (createConfiguration [(0, 0), (2, 0)] [] 1 [] []) = Inr []"
    by (simp add: buildContactMatrix_def createConfiguration_def)
  have sl: "solveLagrangeMultipliers (\<lambda>M. ([], [], [])) [] g = []" for g
    by (simp add: solveLagrangeMultipliers_def)
  show ?thesis
    by (simp add: computeHessian_def Let_def euclidean_two_disks bc sl geometric_two_disks n4 total_two_disks
        project_two_disks intrinsicSpectrum_def symmetrize_two_disks sort_two_disks
        column_def del: One_nat_def)
qed

theorem computeHessian_spectrum_witness:
  "computeHessian (\<lambda>M. ([], [], []))
      (\<lambda>M. ([2, 0], [[1 / sqrt 2, 1 / sqrt 2], [- 1 / sqrt 2, 1 / sqrt 2]]))
      (createConfiguration [(0, 0), (2, 0)] [] 1 [] []) [[0, 0], [1, 0], [0, 0], [0, 1]] =
    Inr \<lparr> hessian = [[1, -1], [-1, 1]], eigenvalues = [0, 2],
          eigenvectors = [[1 / sqrt 2, 1 / sqrt 2], [1 / sqrt 2, - 1 / sqrt 2]],
          isLocalMinimum = True, indexMorseCritical = 0 \<rparr>
   \<and> sorted [0, 2 :: real]
   \<and> (0 :: nat) = length (filter (\<lambda>v. v < - (1 / 10 ^ 6)) [0, 2 :: real])"
proof -
  have r: "[[0, 0], [1, 0], [0, 0], [0, 1]] \<noteq> ([] :: Matrix)"
    "[[0, 0], [1, 0], [0, 0], [0, 1]] ! 0 \<noteq> ([] :: real list)" by simp_all
  from computeHessian_spectrum [OF computeHessian_two_disks r] computeHessian_two_disks
  show ?thesis by simp
qed

section \<open>Claims about the convex hull and the perimeter\<close>

subsection \<open>The hull indices\<close>









lemma halfHull_two: "halfHull [a, b] = [a, b]"
proof -
  have 1: "popRightTurns a [] = []" by (subst popRightTurns.simps) simp
  have 2: "popRightTurns b [a] = [a]" by (subst popRightTurns.simps) simp
  show ?thesis by (simp add: halfHull_def 1 2)
qed

lemma convexHullIndices_two:
  "convexHullIndices [p, q] = [0, 1] \<or> convexHullIndices [p, q] = [1, 0]"
  by (simp add: convexHullIndices_def jsSort_def halfHull_two dedupe_def iOf_def Let_def)

lemma hullPairs_two: "hullPairs [a, b] = [(a, b)]"
  by simp

subsection \<open>Collinear points and the singular values\<close>

lemma foldl_plus: "foldl (+) a xs = a + sum_list xs" for a :: real
  by (induction xs arbitrary: a) auto

lemma sum_list_affine:
  "sum_list (map (\<lambda>q. a + f q * c) xs) = real (length xs) * a + sum_list (map f xs) * c" for a c :: real
  by (induction xs) (auto simp: algebra_simps)

lemma centeredRows_collinear:
  assumes "\<forall>q \<in> set ps. q = (px + f q * dx, py + f q * dy)" and "ps \<noteq> []"
  shows "centeredRows ps =
    map (\<lambda>q. [(f q - sum_list (map f ps) / real (length ps)) * dx,
               (f q - sum_list (map f ps) / real (length ps)) * dy]) ps"
proof -
  let ?m = "sum_list (map f ps) / real (length ps)"
  have l: "real (length ps) \<noteq> 0" using assms(2) by simp
  have ex: "map fst ps = map (\<lambda>q. px + f q * dx) ps" using assms(1) by (intro map_cong) auto
  have "sum_list (map fst ps) = real (length ps) * px + sum_list (map f ps) * dx"
    by (simp only: ex sum_list_affine)
  then have mx: "foldl (+) 0 (map fst ps) / real (length ps) = px + ?m * dx"
    using l by (simp add: foldl_plus field_simps)
  have ey: "map snd ps = map (\<lambda>q. py + f q * dy) ps" using assms(1) by (intro map_cong) auto
  have "sum_list (map snd ps) = real (length ps) * py + sum_list (map f ps) * dy"
    by (simp only: ey sum_list_affine)
  then have my: "foldl (+) 0 (map snd ps) / real (length ps) = py + ?m * dy"
    using l by (simp add: foldl_plus field_simps)
  show ?thesis
    unfolding centeredRows_def Let_def mx my
    using assms(1) by (intro map_cong) (auto simp: algebra_simps)
qed

lemma gram_rank_one:
  "sum_list (map (\<lambda>r. (r ! 0) ^ 2) (map (\<lambda>q. [g q * dx, g q * dy]) ps))
     * sum_list (map (\<lambda>r. (r ! 1) ^ 2) (map (\<lambda>q. [g q * dx, g q * dy]) ps))
   - (sum_list (map (\<lambda>r. r ! 0 * r ! 1) (map (\<lambda>q. [g q * dx, g q * dy]) ps))) ^ 2 = 0"
  for dx dy :: real
proof -
  let ?S = "sum_list (map (\<lambda>q. (g q) ^ 2) ps)"
  have a: "sum_list (map (\<lambda>r. (r ! 0) ^ 2) (map (\<lambda>q. [g q * dx, g q * dy]) ps)) = ?S * dx ^ 2"
    by (induction ps) (auto simp: algebra_simps power2_eq_square)
  have c: "sum_list (map (\<lambda>r. (r ! 1) ^ 2) (map (\<lambda>q. [g q * dx, g q * dy]) ps)) = ?S * dy ^ 2"
    by (induction ps) (auto simp: algebra_simps power2_eq_square)
  have b: "sum_list (map (\<lambda>r. r ! 0 * r ! 1) (map (\<lambda>q. [g q * dx, g q * dy]) ps)) = ?S * (dx * dy)"
    by (induction ps) (auto simp: algebra_simps power2_eq_square)
  show ?thesis unfolding a b c by (simp add: algebra_simps power2_eq_square)
qed

lemma isCollinear_of_collinearPoints:
  assumes "collinearPoints ps"
    and "length ps \<ge> 3 \<longrightarrow> exactSingularValues svd (centeredRows ps)"
  shows "isCollinear svd ps"
proof (cases "length ps < 3")
  case True
  then show ?thesis by (simp add: isCollinear_def)
next
  case False
  then have ne: "ps \<noteq> []" by auto
  from assms(1) obtain p d where "\<forall>q \<in> set ps. \<exists>t. q = (fst p + t * fst d, snd p + t * snd d)"
    unfolding collinearPoints_def by blast
  then obtain f where f: "\<forall>q \<in> set ps. q = (fst p + f q * fst d, snd p + f q * snd d)"
    by metis
  define g where "g q = f q - sum_list (map f ps) / real (length ps)" for q
  have cr: "centeredRows ps = map (\<lambda>q. [g q * fst d, g q * snd d]) ps"
    unfolding g_def by (rule centeredRows_collinear [OF f ne])
  obtain U s V where svd: "svd (centeredRows ps) = (U, s, V)" by (cases "svd (centeredRows ps)")
  from assms(2) False have ex: "exactSingularValues svd (centeredRows ps)" by simp
  then have len: "length s = 2" and nn: "0 \<le> s ! 1" and le: "s ! 1 \<le> s ! 0"
    and det': "(s ! 0) ^ 2 * (s ! 1) ^ 2
        = sum_list (map (\<lambda>r. (r ! 0) ^ 2) (centeredRows ps))
            * sum_list (map (\<lambda>r. (r ! 1) ^ 2) (centeredRows ps))
          - (sum_list (map (\<lambda>r. r ! 0 * r ! 1) (centeredRows ps))) ^ 2"
    unfolding exactSingularValues_def svd prod.case by blast+
  have det: "(s ! 0) ^ 2 * (s ! 1) ^ 2 = 0"
    unfolding det' cr by (rule gram_rank_one)
  from det have "s ! 0 = 0 \<or> s ! 1 = 0" by simp
  with nn le have z: "s ! 1 = 0" by auto
  from len obtain s0 s1 where s: "s = [s0, s1]"
    by (cases s; cases "tl s") auto
  with z have "s1 = 0" by simp
  with False show ?thesis by (simp add: isCollinear_def svd s)
qed

subsection \<open>The loops over the pairs of hull points\<close>

lemma set_hullPairs: "set (hullPairs h) = {(h ! i, h ! j) | i j. i < j \<and> j < length h}"
proof (induction h)
  case Nil
  then show ?case by simp
next
  case (Cons a rest)
  have "{((a # rest) ! i, (a # rest) ! j) | i j. i < j \<and> j < length (a # rest)}
      = (\<lambda>b. (a, b)) ` set rest \<union> {(rest ! i, rest ! j) | i j. i < j \<and> j < length rest}"
    (is "?L = ?R")
  proof (intro set_eqI iffI)
    fix x assume "x \<in> ?L"
    then obtain i j where x: "x = ((a # rest) ! i, (a # rest) ! j)" and ij: "i < j" "j < length (a # rest)"
      by blast
    from ij obtain j' where j': "j = Suc j'" "j' < length rest" by (cases j) auto
    show "x \<in> ?R"
    proof (cases i)
      case 0
      then show ?thesis using x j' by auto
    next
      case (Suc i')
      then have "x = (rest ! i', rest ! j')" "i' < j'" using x j' ij by auto
      then show ?thesis using j' by blast
    qed
  next
    fix x assume "x \<in> ?R"
    then consider b where "x = (a, b)" "b \<in> set rest"
      | i j where "x = (rest ! i, rest ! j)" "i < j" "j < length rest" by blast
    then show "x \<in> ?L"
    proof cases
      case 1
      then obtain k where "k < length rest" "rest ! k = b" by (auto simp: in_set_conv_nth)
      then have "x = ((a # rest) ! 0, (a # rest) ! Suc k)" "0 < Suc k" "Suc k < length (a # rest)"
        using 1 by auto
      then show ?thesis by blast
    next
      case 2
      then have "x = ((a # rest) ! Suc i, (a # rest) ! Suc j)" "Suc i < Suc j"
        "Suc j < length (a # rest)" by auto
      then show ?thesis by blast
    qed
  qed
  then show ?case using Cons.IH by simp
qed

lemma hullPairs_nonempty: "2 \<le> length h \<Longrightarrow> hullPairs h \<noteq> []"
  by (cases h; cases "tl h") auto

lemma foldl_max_pairs:
  "foldl (\<lambda>m (a, b). max m (g a b)) m0 xs = Max (insert m0 ((\<lambda>(a, b). g a b) ` set xs))"
  for m0 :: real
proof (induction xs arbitrary: m0)
  case Nil
  then show ?case by simp
next
  case (Cons x xs)
  obtain a b where x: "x = (a, b)" by (cases x)
  have "Max (insert (max m0 (g a b)) ((\<lambda>(a, b). g a b) ` set xs))
      = Max (insert m0 (insert (g a b) ((\<lambda>(a, b). g a b) ` set xs)))"
    by (cases "set xs = {}") (simp_all add: max.assoc)
  then show ?case unfolding x by (simp add: Cons.IH)
qed

lemma distance_nonneg: "0 \<le> distance p q"
  by (simp add: distance_def)

lemma perimeterCollinear_max:
  assumes "2 \<le> length h"
  shows "perimeterCollinear ps h = 2 * maxPairDistance ps h"
proof -
  let ?D = "(\<lambda>(a, b). distance (ps ! a) (ps ! b)) ` set (hullPairs h)"
  have fin: "finite ?D" by simp
  have ne: "?D \<noteq> {}" using hullPairs_nonempty [OF assms] by simp
  have "\<forall>d \<in> ?D. 0 \<le> d" by (auto simp: distance_nonneg)
  then have "0 \<le> Max ?D" using fin ne by (meson Max_in)
  then have "Max (insert 0 ?D) = Max ?D" using fin ne by (simp add: max_def)
  moreover have "?D = {distance (ps ! (h ! i)) (ps ! (h ! j)) | i j. i < j \<and> j < length h}"
    unfolding set_hullPairs by (auto simp: image_iff) blast
  ultimately show ?thesis
    by (simp add: perimeterCollinear_def foldl_max_pairs maxPairDistance_def)
qed

lemma arrayAdd_length [simp]: "length (arrayAdd xs c v) = length xs"
  by (simp add: arrayAdd_def)

lemma arrayAdd_nth:
  "k < length xs \<Longrightarrow> arrayAdd xs c v ! k = (if k = c then xs ! k + v else xs ! k)"
  by (simp add: arrayAdd_def)






subsection \<open>Two disks on the x-axis, three points in a line\<close>

lemma hull_pair_on_axis: "convexHullIndices [(- 1, 0), (1, 0)] = [0, 1]"
  by code_simp

lemma farthestPairSq_pair_on_axis: "farthestPairSq [(- 1, 0), (1, 0)] [0, 1] = (4, 0, 1)"
  by (simp add: farthestPairSq_def)

lemma four_updates: "arrayAdd (arrayAdd (arrayAdd (arrayAdd (replicate 4 0) 0 (- 2)) 1 0) 2 2) 3 0
    = [- 2, 0, 2, 0]"
  by code_simp

lemma gradientCollinear_pair_on_axis:
  "gradientCollinear [(- 1, 0), (1, 0)] [0, 1] (replicate 4 0) = [- 2, 0, 2, 0]"
proof -
  have "gradientCollinear [(- 1, 0), (1, 0)] [0, 1] (replicate 4 0)
      = arrayAdd (arrayAdd (arrayAdd (arrayAdd (replicate 4 0) 0 (- 2)) 1 0) 2 2) 3 0"
    unfolding gradientCollinear_def farthestPairSq_pair_on_axis by (simp add: Let_def)
  then show ?thesis unfolding four_updates .
qed

lemma perimeterCollinear_pair_on_axis: "perimeterCollinear [(- 1, 0), (1, 0)] [0, 1] = 4"
  by (simp add: perimeterCollinear_def distance_def)


lemma centeredRows_three_in_line:
  "centeredRows [(0, 0), (1, 0), (2, 0)] = [[- 1, 0], [0, 0], [1, 0]]"
  by (simp add: centeredRows_def)

lemma perimeterCollinear_three_in_line:
  "perimeterCollinear [(0, 0), (1, 0), (2, 0)] [0, 1, 2] = 4"
  by (simp add: perimeterCollinear_def distance_def)






subsection \<open>The claims\<close>

text \<open>
  Claim C7 is about all collinear points. The lemma below is what holds of the definitions
  above, in real numbers and for a decomposition that returns the exact singular values of
  the centred data. It does not carry over to the source, which centres the points in
  doubles and compares the second singular value with the absolute bound \<open>1e-8\<close>. For the
  collinear points \<open>(0, 0)\<close>, \<open>(3221225472, 1073741824)\<close>, \<open>(9663676416, 3221225472)\<close> the
  mean \<open>4294967296/3\<close> of the second coordinates is rounded to \<open>1431655765.3333333\<close>; the
  centred rows are then no longer of rank one, their second singular value is about
  \<open>1.3e-7\<close>, and the test of the source fails.
\<close>

lemma collinear_perimeter_exact:
  assumes "collinearPoints (positions config)"
    and "2 \<le> length (convexHullIndices (positions config))"
    and "length (positions config) \<ge> 3 \<longrightarrow>
           exactSingularValues svd (centeredRows (positions config))"
  shows "isCollinear svd (positions config) = True
    \<and> perimeterOfCenters svd config =
        2 * maxPairDistance (positions config) (convexHullIndices (positions config))"
proof -
  have col: "isCollinear svd (positions config)"
    using assms(1,3) by (rule isCollinear_of_collinearPoints)
  with assms(2) show ?thesis
    by (simp add: perimeterOfCenters_def Let_def perimeterCollinear_max)
qed




text \<open>
  Claim C10. \<^const>\<open>isCollinear\<close> is true on fewer than three points whatever the singular
  value decomposition would return; so for a configuration of two disks
  \<^const>\<open>perimeterOfCenters\<close>, \<^const>\<open>perimeterGradient\<close> and
  \<^const>\<open>buildEuclideanHessian\<close> all return what their collinear branch computes.
\<close>

theorem two_disks_collinear_branch:
  "(length points < 3 \<longrightarrow> isCollinear svd points = True)
   \<and> (n config = 2 \<and> length (positions config) = 2 \<longrightarrow>
        isCollinear svd (positions config) = True
        \<and> perimeterOfCenters svd config =
            perimeterCollinear (positions config) (convexHullIndices (positions config))
        \<and> perimeterGradient svd config =
            gradientCollinear (positions config) (convexHullIndices (positions config))
              (replicate (2 * n config) 0)
        \<and> buildEuclideanHessian svd config =
            euclideanCollinear (positions config) (convexHullIndices (positions config))
              (zeros (2 * n config) (2 * n config)))"
proof (intro conjI impI)
  assume "length points < 3"
  then show "isCollinear svd points = True" by (simp add: isCollinear_def)
next
  assume h: "n config = 2 \<and> length (positions config) = 2"
  then obtain p q where pq: "positions config = [p, q]"
    by (cases "positions config"; cases "tl (positions config)") auto
  have col: "isCollinear svd (positions config)" using h by (simp add: isCollinear_def)
  have len: "length (convexHullIndices (positions config)) = 2"
    using convexHullIndices_two [of p q] unfolding pq by auto
  show "isCollinear svd (positions config) = True" using col by simp
  show "perimeterOfCenters svd config =
      perimeterCollinear (positions config) (convexHullIndices (positions config))"
    using col len by (simp add: perimeterOfCenters_def Let_def)
  show "perimeterGradient svd config =
      gradientCollinear (positions config) (convexHullIndices (positions config))
        (replicate (2 * n config) 0)"
    using col len by (simp add: perimeterGradient_def Let_def)
  show "buildEuclideanHessian svd config =
      euclideanCollinear (positions config) (convexHullIndices (positions config))
        (zeros (2 * n config) (2 * n config))"
    using col by (simp add: buildEuclideanHessian_def Let_def)
qed

theorem two_disks_collinear_branch_witness:
  "isCollinear (\<lambda>M. ([], [], [])) [(- 1, 0), (1, 0)]
   \<and> perimeterOfCenters (\<lambda>M. ([], [], []))
        (createConfiguration [(- 1, 0), (1, 0)] [(0, 1)] 1 [] []) = 4
   \<and> perimeterGradient (\<lambda>M. ([], [], []))
        (createConfiguration [(- 1, 0), (1, 0)] [(0, 1)] 1 [] []) = [- 2, 0, 2, 0]
   \<and> buildEuclideanHessian (\<lambda>M. ([], [], []))
        (createConfiguration [(- 1, 0), (1, 0)] [(0, 1)] 1 [] [])
       = [[0, 0, 0, 0], [0, 1, 0, - 1], [0, 0, 0, 0], [0, - 1, 0, 1]]"
proof -
  let ?svd = "\<lambda>M :: Matrix. ([] :: Matrix, [] :: real list, [] :: Matrix)"
  let ?c = "createConfiguration [(- 1, 0), (1, 0)] [(0, 1)] 1 [] []"
  have ps: "positions ?c = [(- 1, 0), (1, 0)]" and n4: "2 * n ?c = 4"
    by (simp_all add: createConfiguration_def)
  have h: "n ?c = 2 \<and> length (positions ?c) = 2" by (simp add: createConfiguration_def)
  have three: "length [(- 1, 0), (1, 0 :: real)] < 3" by simp
  have fp: "farthestPair [(- 1, 0), (1, 0)] [0, 1] = (2, Some 0, Some 1)"
    by (simp add: farthestPair_def nthOpt_def distance_def)
  have ec: "euclideanCollinear [(- 1, 0), (1, 0)] [0, 1] (zeros 4 4)
      = addEdgeBlocks (zeros 4 4) [[0, 0], [0, 1]] 0 1"
    unfolding euclideanCollinear_def fp by (simp add: Let_def computeEdgeBlock_def)
  from two_disks_collinear_branch [of "[(- 1, 0), (1, 0)]" ?svd ?c] h three
  have "isCollinear ?svd [(- 1, 0), (1, 0)]"
    and "perimeterOfCenters ?svd ?c =
            perimeterCollinear (positions ?c) (convexHullIndices (positions ?c))"
    and "perimeterGradient ?svd ?c =
            gradientCollinear (positions ?c) (convexHullIndices (positions ?c))
              (replicate (2 * n ?c) 0)"
    and "buildEuclideanHessian ?svd ?c =
            euclideanCollinear (positions ?c) (convexHullIndices (positions ?c))
              (zeros (2 * n ?c) (2 * n ?c))"
    by blast+
  then show ?thesis
    unfolding ps hull_pair_on_axis n4 perimeterCollinear_pair_on_axis
      gradientCollinear_pair_on_axis ec addEdgeBlocks_two_disks
    by simp
qed

section \<open>Claims about the triangle of three disks\<close>

subsection \<open>Small lists and sums\<close>

lemma sqrt3_gt1: "1 < sqrt 3" by simp

lemma popRightTurns_short: "length chain < 2 \<Longrightarrow> popRightTurns p chain = chain"
  by (subst popRightTurns.simps) simp

lemma popRightTurns_keep:
  "\<not> cross a b p < - EPS \<Longrightarrow> popRightTurns p (chain @ [a, b]) = chain @ [a, b]"
  by (subst popRightTurns.simps) (simp add: nth_append)

lemma popRightTurns_pop:
  "cross a b p < - EPS \<Longrightarrow> popRightTurns p (chain @ [a, b]) = popRightTurns p (chain @ [a])"
  by (subst popRightTurns.simps) (simp add: nth_append butlast_append)

lemma arrayAdd_six:
  "arrayAdd [a0, a1, a2, a3, a4, a5] 0 v = [a0 + v, a1, a2, a3, a4, a5]"
  "arrayAdd [a0, a1, a2, a3, a4, a5] (Suc 0) v = [a0, a1 + v, a2, a3, a4, a5]"
  "arrayAdd [a0, a1, a2, a3, a4, a5] 2 v = [a0, a1, a2 + v, a3, a4, a5]"
  "arrayAdd [a0, a1, a2, a3, a4, a5] 3 v = [a0, a1, a2, a3 + v, a4, a5]"
  "arrayAdd [a0, a1, a2, a3, a4, a5] 4 v = [a0, a1, a2, a3, a4 + v, a5]"
  "arrayAdd [a0, a1, a2, a3, a4, a5] 5 v = [a0, a1, a2, a3, a4, a5 + v]"
  by (simp_all add: arrayAdd_def eval_nat_numeral)

lemma replicate_six: "replicate 6 x = [x, x, x, x, x, x]"
  by (simp add: eval_nat_numeral)

lemma matrixAdd_six:
  "matrixAdd [r0, r1, r2, r3, r4, r5] 0 c v = [arrayAdd r0 c v, r1, r2, r3, r4, r5]"
  "matrixAdd [r0, r1, r2, r3, r4, r5] (Suc 0) c v = [r0, arrayAdd r1 c v, r2, r3, r4, r5]"
  "matrixAdd [r0, r1, r2, r3, r4, r5] 2 c v = [r0, r1, arrayAdd r2 c v, r3, r4, r5]"
  "matrixAdd [r0, r1, r2, r3, r4, r5] 3 c v = [r0, r1, r2, arrayAdd r3 c v, r4, r5]"
  "matrixAdd [r0, r1, r2, r3, r4, r5] 4 c v = [r0, r1, r2, r3, arrayAdd r4 c v, r5]"
  "matrixAdd [r0, r1, r2, r3, r4, r5] 5 c v = [r0, r1, r2, r3, r4, arrayAdd r5 c v]"
  by (simp_all add: matrixAdd_def eval_nat_numeral)

lemma zeros_six: "zeros 6 6 = [[0, 0, 0, 0, 0, 0], [0, 0, 0, 0, 0, 0], [0, 0, 0, 0, 0, 0],
    [0, 0, 0, 0, 0, 0], [0, 0, 0, 0, 0, 0], [0, 0, 0, 0, 0, 0]]"
  by (simp add: zeros_def replicate_six)

lemma all_less_3: "(\<forall>i < (3 :: nat). P i) = (P 0 \<and> P 1 \<and> P 2)"
  by (simp add: eval_nat_numeral All_less_Suc conj_ac)

lemma all_less_6: "(\<forall>i < (6 :: nat). P i) = (P 0 \<and> P 1 \<and> P 2 \<and> P 3 \<and> P 4 \<and> P 5)"
  by (simp add: eval_nat_numeral All_less_Suc conj_ac)

lemma sum_less_3: "(\<Sum>i < (3 :: nat). f i) = f 0 + f 1 + f 2" for f :: "nat \<Rightarrow> real"
  by (simp add: eval_nat_numeral)

lemma sum_less_6: "(\<Sum>i < (6 :: nat). f i) = f 0 + f 1 + f 2 + f 3 + f 4 + f 5" for f :: "nat \<Rightarrow> real"
  by (simp add: eval_nat_numeral)

lemma sqrt_products:
  "sqrt 3 * sqrt 3 = 3" "sqrt 2 * sqrt 2 = 2"
  "sqrt 3 * (sqrt 3 * x) = 3 * x" "sqrt 2 * (sqrt 2 * x) = 2 * x"
  by simp_all

subsection \<open>The pseudo-inverse from an exact decomposition\<close>

lemma dot_sum: "length xs = length ys \<Longrightarrow> dot xs ys = (\<Sum>k < length xs. xs ! k * ys ! k)"
proof (induction xs arbitrary: ys)
  case Nil
  then show ?case by (simp add: dot_def)
next
  case (Cons x xs)
  then obtain y ys' where ys: "ys = y # ys'" by (cases ys) auto
  with Cons.prems have "length xs = length ys'" by simp
  from Cons.IH [OF this] show ?case
    unfolding ys by (simp add: dot_def sum.lessThan_Suc_shift del: sum.lessThan_Suc)
qed

lemma inner_loop:
  "k \<le> length res \<Longrightarrow>
   length (foldl (\<lambda>r j. arrayAdd r j (f j)) res [0..<k]) = length res \<and>
   (\<forall>j < length res. foldl (\<lambda>r j. arrayAdd r j (f j)) res [0..<k] ! j
        = res ! j + (if j < k then f j else 0))"
proof (induction k)
  case 0
  then show ?case by simp
next
  case (Suc k)
  then have "k \<le> length res" by simp
  from Suc.IH [OF this] Suc.prems show ?case
    by (auto simp: arrayAdd_nth less_Suc_eq)
qed

lemma outer_loop:
  assumes "m = length res"
  shows "length (foldl (\<lambda>result i. if P i
             then foldl (\<lambda>r j. arrayAdd r j (f i j)) result [0..<m] else result) res [0..<q])
           = m \<and>
         (\<forall>j < m. foldl (\<lambda>result i. if P i
             then foldl (\<lambda>r j. arrayAdd r j (f i j)) result [0..<m] else result) res [0..<q] ! j
           = res ! j + (\<Sum>i < q. if P i then f i j else 0))"
proof (induction q)
  case 0
  then show ?case using assms by simp
next
  case (Suc q)
  let ?r = "foldl (\<lambda>result i. if P i
             then foldl (\<lambda>r j. arrayAdd r j (f i j)) result [0..<m] else result) res [0..<q]"
  from Suc have len: "length ?r = m"
    and val: "\<forall>j < m. ?r ! j = res ! j + (\<Sum>i < q. if P i then f i j else 0)" by auto
  have m: "m \<le> length ?r" using len by simp
  show ?case
    using inner_loop [OF m, of "f q"] len val by (auto simp: algebra_simps)
qed

lemma pinv_sum:
  fixes U V M :: "nat \<Rightarrow> nat \<Rightarrow> real" and S x g :: "nat \<Rightarrow> real"
  assumes M: "\<forall>k < p. \<forall>j < m. M k j = (\<Sum>i < m. U k i * S i * V j i)"
    and UU: "\<forall>i < m. \<forall>i' < m. (\<Sum>k < p. U k i * U k i') = (if i = i' then 1 else 0)"
    and VV: "\<forall>j < m. \<forall>j' < m. (\<Sum>i < m. V j i * V j' i) = (if j = j' then 1 else 0)"
    and S: "\<forall>i < m. S i \<noteq> 0"
    and g: "\<forall>k < p. g k = (\<Sum>j < m. M k j * x j)"
    and j: "j < m"
  shows "(\<Sum>i < m. V j i * ((\<Sum>k < p. U k i * g k) / S i)) = x j"
proof -
  define c where "c i = (\<Sum>j' < m. V j' i * x j')" for i
  have A: "(\<Sum>k < p. U k i * g k) = S i * c i" if i: "i < m" for i
  proof -
    have "(\<Sum>k < p. U k i * g k)
        = (\<Sum>k < p. U k i * (\<Sum>j' < m. (\<Sum>i' < m. U k i' * S i' * V j' i') * x j'))"
      using g M by (intro sum.cong) auto
    also have "\<dots> = (\<Sum>k < p. \<Sum>j' < m. \<Sum>i' < m. U k i * U k i' * (S i' * (V j' i' * x j')))"
      by (simp add: sum_distrib_left sum_distrib_right mult_ac)
    also have "\<dots> = (\<Sum>k < p. \<Sum>i' < m. \<Sum>j' < m. U k i * U k i' * (S i' * (V j' i' * x j')))"
      by (rule sum.cong [OF refl]) (rule sum.swap)
    also have "\<dots> = (\<Sum>i' < m. \<Sum>k < p. \<Sum>j' < m. U k i * U k i' * (S i' * (V j' i' * x j')))"
      by (rule sum.swap)
    also have "\<dots> = (\<Sum>i' < m. \<Sum>j' < m. \<Sum>k < p. U k i * U k i' * (S i' * (V j' i' * x j')))"
      by (rule sum.cong [OF refl]) (rule sum.swap)
    also have "\<dots> = (\<Sum>i' < m. (\<Sum>k < p. U k i * U k i') * (S i' * c i'))"
      unfolding c_def by (simp add: sum_distrib_left sum_distrib_right)
    also have "\<dots> = (\<Sum>i' < m. (if i = i' then 1 else 0) * (S i' * c i'))"
      using UU i by (intro sum.cong) auto
    also have "\<dots> = (\<Sum>i' < m. if i = i' then S i' * c i' else 0)"
      by (intro sum.cong) auto
    also have "\<dots> = S i * c i" using i by (simp add: sum.delta)
    finally show ?thesis .
  qed
  have "(\<Sum>i < m. V j i * ((\<Sum>k < p. U k i * g k) / S i)) = (\<Sum>i < m. V j i * c i)"
    using A S by (intro sum.cong) auto
  also have "\<dots> = (\<Sum>i < m. \<Sum>j' < m. V j i * V j' i * x j')"
    unfolding c_def by (simp add: sum_distrib_left mult_ac)
  also have "\<dots> = (\<Sum>j' < m. \<Sum>i < m. V j i * V j' i * x j')" by (rule sum.swap)
  also have "\<dots> = (\<Sum>j' < m. (\<Sum>i < m. V j i * V j' i) * x j')"
    by (simp add: sum_distrib_right)
  also have "\<dots> = (\<Sum>j' < m. (if j = j' then 1 else 0) * x j')"
    using VV j by (intro sum.cong) auto
  also have "\<dots> = (\<Sum>j' < m. if j = j' then x j' else 0)"
    by (intro sum.cong) auto
  also have "\<dots> = x j" using j by (simp add: sum.delta)
  finally show ?thesis .
qed

lemma foldl_max_ge: "foldl max (a :: real) xs \<ge> a \<and> (\<forall>x \<in> set xs. foldl max a xs \<ge> x)"
proof (induction xs arbitrary: a)
  case Nil
  then show ?case by simp
next
  case (Cons y ys)
  from Cons.IH [of "max a y"] show ?case by auto
qed

lemma maxOf_ge: "i < length S \<Longrightarrow> S ! i \<le> maxOf S"
proof (cases S)
  case Nil
  assume "i < length S"
  with Nil show ?thesis by simp
next
  case (Cons s ss)
  assume "i < length S"
  then have "S ! i \<in> set S" by simp
  then show ?thesis
    unfolding Cons maxOf_def using foldl_max_ge [of s ss] by auto
qed

lemma numCols_transposeM:
  assumes "A \<noteq> []" "0 < numCols A"
  shows "length (transposeM A) = numCols A" "numCols (transposeM A) = length A"
  using assms
  by (simp_all add: transposeM_def numCols_def column_def upt_conv_Cons split: list.splits)

lemma nth_transposeM:
  "k < numCols A \<Longrightarrow> j < length A \<Longrightarrow> transposeM A ! k ! j = A ! j ! k"
  by (simp add: transposeM_def column_def)

lemma solveLagrangeMultipliers_exact:
  assumes ne: "A \<noteq> []" and cols: "0 < numCols A"
    and svd: "exactThinSVD svd (transposeM A)"
    and lg: "length grad = numCols A" and lx: "length x = length A"
    and g: "\<forall>k < numCols A. grad ! k = (\<Sum>j < length A. A ! j ! k * x ! j)"
  shows "solveLagrangeMultipliers svd A grad = x"
proof -
  let ?p = "numCols A" and ?m = "length A"
  obtain U S V where usv: "svd (transposeM A) = (U, S, V)" by (cases "svd (transposeM A)") auto
  note tr = numCols_transposeM [OF ne cols]
  from svd have lU: "length U = ?p" and rU: "\<forall>row \<in> set U. length row = ?m"
    and lS: "length S = ?m"
    and M: "\<forall>k < ?p. \<forall>j < ?m. transposeM A ! k ! j = (\<Sum>i < ?m. U ! k ! i * S ! i * V ! j ! i)"
    and UU: "\<forall>i < ?m. \<forall>i' < ?m. (\<Sum>k < ?p. U ! k ! i * U ! k ! i') = (if i = i' then 1 else 0)"
    and VV: "\<forall>j < ?m. \<forall>j' < ?m. (\<Sum>i < ?m. V ! j ! i * V ! j' ! i) = (if j = j' then 1 else 0)"
    and big: "\<forall>i < ?m. 1 / 10 ^ 10 * maxOf S < S ! i"
    unfolding exactThinSVD_def usv prod.case tr by blast+
  have S0: "S ! i \<noteq> 0" if "i < ?m" for i
  proof
    assume z: "S ! i = 0"
    from that lS have "S ! i \<le> maxOf S" by (intro maxOf_ge) simp
    with z have "0 \<le> 1 / 10 ^ 10 * maxOf S" by simp
    with big that z show False by auto
  qed
  have Une: "U \<noteq> []" using lU cols by auto
  then have ncU: "numCols U = ?m" using rU by (cases U) (auto simp: numCols_def)
  have gne: "grad \<noteq> []" using lg cols by auto
  let ?b = "map (\<lambda>g. [g]) grad"
  have ncb: "numCols ?b = 1" using gne by (cases grad) (auto simp: numCols_def)
  have colb: "column ?b 0 = grad" by (simp add: column_def comp_def)
  have Utb: "mmul (transposeM U) ?b ! i ! 0 = (\<Sum>k < ?p. U ! k ! i * grad ! k)" if i: "i < ?m" for i
  proof -
    have "mmul (transposeM U) ?b ! i ! 0 = dot (column U i) grad"
      using i ncU by (simp add: mmul_def transposeM_def ncb colb)
    also have "\<dots> = (\<Sum>k < length (column U i). column U i ! k * grad ! k)"
      by (rule dot_sum) (simp add: column_def lU lg)
    also have "\<dots> = (\<Sum>k < ?p. U ! k ! i * grad ! k)"
      by (simp add: column_def lU)
    finally show ?thesis .
  qed
  define f where "f i j = V ! j ! i * (mmul (transposeM U) ?b ! i ! 0 / S ! i)" for i j
  define P where "P i = (1 / 10 ^ 10 * maxOf S < S ! i)" for i
  have res: "solveLagrangeMultipliers svd A grad =
      foldl (\<lambda>result i. if P i
             then foldl (\<lambda>r j. arrayAdd r j (f i j)) result [0..<?m] else result)
            (replicate ?m 0) [0..<?m]"
    unfolding solveLagrangeMultipliers_def usv prod.case Let_def f_def P_def lS
    using ne by simp
  have lm: "?m = length (replicate ?m (0 :: real))" by simp
  note ol = outer_loop [OF lm, of P f ?m]
  have len: "length (solveLagrangeMultipliers svd A grad) = ?m" unfolding res using ol by blast
  have "solveLagrangeMultipliers svd A grad ! j = x ! j" if j: "j < ?m" for j
  proof -
    have "solveLagrangeMultipliers svd A grad ! j = (\<Sum>i < ?m. if P i then f i j else 0)"
      unfolding res using ol j by simp
    also have "\<dots> = (\<Sum>i < ?m. V ! j ! i * ((\<Sum>k < ?p. U ! k ! i * grad ! k) / S ! i))"
      using big by (intro sum.cong) (auto simp: P_def f_def Utb)
    also have "\<dots> = x ! j"
    proof (rule pinv_sum [where M = "\<lambda>k j. transposeM A ! k ! j" and p = ?p])
      show "\<forall>k < ?p. \<forall>j < ?m. transposeM A ! k ! j = (\<Sum>i < ?m. U ! k ! i * S ! i * V ! j ! i)"
        by (rule M)
      show "\<forall>i < ?m. \<forall>i' < ?m. (\<Sum>k < ?p. U ! k ! i * U ! k ! i') = (if i = i' then 1 else 0)"
        by (rule UU)
      show "\<forall>j < ?m. \<forall>j' < ?m. (\<Sum>i < ?m. V ! j ! i * V ! j' ! i) = (if j = j' then 1 else 0)"
        by (rule VV)
      show "\<forall>i < ?m. S ! i \<noteq> 0" using S0 by blast
      show "\<forall>k < ?p. grad ! k = (\<Sum>j < ?m. transposeM A ! k ! j * x ! j)"
        using g by (simp add: nth_transposeM)
      show "j < ?m" by (rule j)
    qed
    finally show ?thesis .
  qed
  with len lx show ?thesis by (intro nth_equalityI) simp_all
qed

lemma length_filter_nth:
  "length (filter (\<lambda>i. Q (xs ! i)) [0..<length xs]) = size (filter_mset Q (mset xs))"
proof -
  have "map (\<lambda>i. xs ! i) (filter (\<lambda>i. Q (xs ! i)) [0..<length xs]) = filter Q (map (\<lambda>i. xs ! i) [0..<length xs])"
    by (simp add: filter_map comp_def)
  also have "map (\<lambda>i. xs ! i) [0..<length xs] = xs" by (rule map_nth)
  finally have "length (filter (\<lambda>i. Q (xs ! i)) [0..<length xs]) = length (filter Q xs)"
    by (metis length_map)
  then show ?thesis by (metis mset_filter size_mset)
qed

subsection \<open>Eigenvalues from the trace and the sum of squares\<close>

lemma sum_delta_mult:
  "(\<Sum>l < (k :: nat). f l * (if x = l then 1 else 0 :: real)) = (if x < k then f x else 0)"
proof -
  have "(\<Sum>l < k. f l * (if x = l then 1 else 0)) = (\<Sum>l < k. if x = l then f l else 0)"
    by (rule sum.cong [OF refl]) simp
  also have "\<dots> = (if x < k then f x else 0)"
    using sum.delta' [of "{..<k}" x f] by simp
  finally show ?thesis .
qed

lemma eigen_trace:
  fixes m v :: "nat \<Rightarrow> nat \<Rightarrow> real" and e :: "nat \<Rightarrow> real" and k :: nat
  assumes mv: "\<And>i j. i < k \<Longrightarrow> j < k \<Longrightarrow> (\<Sum>l < k. m i l * v l j) = v i j * e j"
    and cols: "\<And>j. j < k \<Longrightarrow> (\<Sum>i < k. v i j * v i j) = 1"
    and rows: "\<And>i l. i < k \<Longrightarrow> l < k \<Longrightarrow> (\<Sum>j < k. v i j * v l j) = (if i = l then 1 else 0)"
  shows "(\<Sum>j < k. e j) = (\<Sum>i < k. m i i)"
proof -
  have "(\<Sum>j < k. e j) = (\<Sum>j < k. \<Sum>i < k. v i j * (v i j * e j))"
  proof (rule sum.cong [OF refl])
    fix j assume "j \<in> {..<k}"
    then have j: "j < k" by simp
    have "(\<Sum>i < k. v i j * (v i j * e j)) = (\<Sum>i < k. v i j * v i j) * e j"
      by (simp add: sum_distrib_right mult.assoc)
    then show "e j = (\<Sum>i < k. v i j * (v i j * e j))" using cols [OF j] by simp
  qed
  also have "\<dots> = (\<Sum>j < k. \<Sum>i < k. v i j * (\<Sum>l < k. m i l * v l j))"
    by (intro sum.cong refl) (simp add: mv)
  also have "\<dots> = (\<Sum>j < k. \<Sum>i < k. \<Sum>l < k. m i l * (v i j * v l j))"
    by (intro sum.cong refl) (simp add: sum_distrib_left mult_ac)
  also have "\<dots> = (\<Sum>i < k. \<Sum>j < k. \<Sum>l < k. m i l * (v i j * v l j))"
    by (rule sum.swap)
  also have "\<dots> = (\<Sum>i < k. \<Sum>l < k. \<Sum>j < k. m i l * (v i j * v l j))"
    by (rule sum.cong [OF refl]) (rule sum.swap)
  also have "\<dots> = (\<Sum>i < k. \<Sum>l < k. m i l * (if i = l then 1 else 0))"
    by (intro sum.cong refl) (simp add: sum_distrib_left [symmetric] rows)
  also have "\<dots> = (\<Sum>i < k. m i i)"
    by (rule sum.cong [OF refl]) (simp add: sum_delta_mult)
  finally show ?thesis .
qed

lemma eigen_frobenius:
  fixes m v :: "nat \<Rightarrow> nat \<Rightarrow> real" and e :: "nat \<Rightarrow> real" and k :: nat
  assumes mv: "\<And>i j. i < k \<Longrightarrow> j < k \<Longrightarrow> (\<Sum>l < k. m i l * v l j) = v i j * e j"
    and cols: "\<And>j. j < k \<Longrightarrow> (\<Sum>i < k. v i j * v i j) = 1"
    and rows: "\<And>i l. i < k \<Longrightarrow> l < k \<Longrightarrow> (\<Sum>j < k. v i j * v l j) = (if i = l then 1 else 0)"
  shows "(\<Sum>j < k. e j * e j) = (\<Sum>i < k. \<Sum>l < k. m i l * m i l)"
proof -
  have "(\<Sum>j < k. e j * e j) = (\<Sum>j < k. \<Sum>i < k. (v i j * e j) * (v i j * e j))"
  proof (rule sum.cong [OF refl])
    fix j assume "j \<in> {..<k}"
    then have j: "j < k" by simp
    have "(\<Sum>i < k. (v i j * e j) * (v i j * e j)) = (\<Sum>i < k. v i j * v i j) * (e j * e j)"
      by (simp add: sum_distrib_left mult_ac)
    then show "e j * e j = (\<Sum>i < k. (v i j * e j) * (v i j * e j))" using cols [OF j] by simp
  qed
  also have "\<dots> = (\<Sum>j < k. \<Sum>i < k. (\<Sum>l < k. m i l * v l j) * (\<Sum>p < k. m i p * v p j))"
    by (intro sum.cong refl) (simp add: mv)
  also have "\<dots> = (\<Sum>j < k. \<Sum>i < k. \<Sum>l < k. \<Sum>p < k. (m i l * m i p) * (v l j * v p j))"
    by (intro sum.cong refl) (simp add: sum_product mult_ac)
  also have "\<dots> = (\<Sum>i < k. \<Sum>j < k. \<Sum>l < k. \<Sum>p < k. (m i l * m i p) * (v l j * v p j))"
    by (rule sum.swap)
  also have "\<dots> = (\<Sum>i < k. \<Sum>l < k. \<Sum>j < k. \<Sum>p < k. (m i l * m i p) * (v l j * v p j))"
    by (rule sum.cong [OF refl]) (rule sum.swap)
  also have "\<dots> = (\<Sum>i < k. \<Sum>l < k. \<Sum>p < k. \<Sum>j < k. (m i l * m i p) * (v l j * v p j))"
    by (rule sum.cong [OF refl], rule sum.cong [OF refl]) (rule sum.swap)
  also have "\<dots> = (\<Sum>i < k. \<Sum>l < k. \<Sum>p < k. (m i l * m i p) * (if l = p then 1 else 0))"
    by (intro sum.cong refl) (simp add: sum_distrib_left [symmetric] rows)
  also have "\<dots> = (\<Sum>i < k. \<Sum>l < k. m i l * m i l)"
    by (rule sum.cong [OF refl], rule sum.cong [OF refl]) (simp add: sum_delta_mult)
  finally show ?thesis .
qed

lemma three_values:
  fixes xs :: "real list"
  assumes "\<forall>x \<in> set xs. x = 0 \<or> x = a \<or> x = b" "0 \<noteq> a" "0 \<noteq> b" "a \<noteq> b"
  shows "mset xs = replicate_mset (count_list xs 0) 0 + replicate_mset (count_list xs a) a
            + replicate_mset (count_list xs b) b
       \<and> sum_list xs = a * real (count_list xs a) + b * real (count_list xs b)
       \<and> sum_list (map (\<lambda>x. x * x) xs)
            = a * a * real (count_list xs a) + b * b * real (count_list xs b)
       \<and> length xs = count_list xs 0 + count_list xs a + count_list xs b"
  using assms
proof (induction xs)
  case Nil
  then show ?case by simp
next
  case (Cons x xs)
  then have ih: "mset xs = replicate_mset (count_list xs 0) 0 + replicate_mset (count_list xs a) a
            + replicate_mset (count_list xs b) b"
    "sum_list xs = a * real (count_list xs a) + b * real (count_list xs b)"
    "sum_list (map (\<lambda>x. x * x) xs)
            = a * a * real (count_list xs a) + b * b * real (count_list xs b)"
    "length xs = count_list xs 0 + count_list xs a + count_list xs b"
    by simp_all
  from Cons.prems have "x = 0 \<or> x = a \<or> x = b" by simp
  then show ?case
  proof (elim disjE)
    assume "x = 0"
    then show ?thesis using ih Cons.prems(2-4) by (simp add: algebra_simps)
  next
    assume "x = a"
    then show ?thesis using ih Cons.prems(2-4) by (simp add: algebra_simps)
  next
    assume "x = b"
    then show ?thesis using ih Cons.prems(2-4) by (simp add: algebra_simps)
  qed
qed

lemma sum_list_nth: "sum_list (map f xs) = (\<Sum>i < length xs. f (xs ! i))" for f :: "real \<Rightarrow> real"
proof -
  have "sum_list (map f xs) = (\<Sum>i = 0..<length (map f xs). map f xs ! i)"
    by (rule sum_list_sum_nth)
  also have "\<dots> = (\<Sum>i < length xs. f (xs ! i))"
    by (simp add: atLeast0LessThan)
  finally show ?thesis .
qed

lemma spectrum_from_moments:
  fixes ev :: "real list"
  assumes len: "length ev = 6"
    and vals: "\<forall>x \<in> set ev. x = 0 \<or> x = 3 / 2 \<or> x = 3"
    and s1: "sum_list ev = 6"
    and s2: "sum_list (map (\<lambda>x. x * x) ev) = 27 / 2"
  shows "mset ev = {#0, 0, 0, 3 / 2, 3 / 2, 3#}"
proof -
  define p where "p = count_list ev (3 / 2)"
  define q where "q = count_list ev 3"
  define z where "z = count_list ev 0"
  note t = three_values [OF vals, unfolded p_def [symmetric] q_def [symmetric] z_def [symmetric]]
  have t': "mset ev = replicate_mset z 0 + replicate_mset p (3 / 2) + replicate_mset q 3"
    "sum_list ev = 3 / 2 * real p + 3 * real q"
    "sum_list (map (\<lambda>x. x * x) ev) = 3 / 2 * (3 / 2) * real p + 3 * 3 * real q"
    "length ev = z + p + q"
    using t by simp_all
  from t'(2) t'(3) s1 s2 have "real p = 2" "real q = 1" by simp_all
  then have pq: "p = 2" "q = 1" by simp_all
  with t'(4) len have z: "z = 3" by simp
  show ?thesis unfolding t'(1) pq z by (simp add: eval_nat_numeral)
qed

lemma gram_eigenvalue:
  fixes x0 x1 x2 x3 x4 x5 lam s :: real
  assumes s: "s * s = 3"
    and r0: "5 / 4 * x0 + s / 4 * x1 - x2 - 1 / 4 * x4 - s / 4 * x5 = lam * x0"
    and r1: "s / 4 * x0 + 3 / 4 * x1 - s / 4 * x4 - 3 / 4 * x5 = lam * x1"
    and r2: "- x0 + 5 / 4 * x2 - s / 4 * x3 - 1 / 4 * x4 + s / 4 * x5 = lam * x2"
    and r3: "- (s / 4 * x2) + 3 / 4 * x3 + s / 4 * x4 - 3 / 4 * x5 = lam * x3"
    and r4: "- (1 / 4 * x0) - s / 4 * x1 - 1 / 4 * x2 + s / 4 * x3 + 1 / 2 * x4 = lam * x4"
    and r5: "- (s / 4 * x0) - 3 / 4 * x1 + s / 4 * x2 - 3 / 4 * x3 + 3 / 2 * x5 = lam * x5"
    and nz: "x0 * x0 + x1 * x1 + x2 * x2 + x3 * x3 + x4 * x4 + x5 * x5 = 1"
  shows "lam = 0 \<or> lam = 3 / 2 \<or> lam = 3"
proof -
  define y1 where "y1 = x2 - x0"
  define y2 where "y2 = 1 / 2 * x2 - s / 2 * x3 - 1 / 2 * x4 + s / 2 * x5"
  define y3 where "y3 = - (1 / 2 * x0) - s / 2 * x1 + 1 / 2 * x4 + s / 2 * x5"
  have a0: "lam * x0 = - y1 - y3 / 2" using r0 by (simp add: y1_def y3_def field_simps)
  have a1: "lam * x1 = - (s / 2 * y3)"
  proof -
    have "- (s / 2 * y3) = s / 4 * x0 + s * s / 4 * x1 - s / 4 * x4 - s * s / 4 * x5"
      by (simp add: y3_def algebra_simps)
    also have "\<dots> = lam * x1" unfolding s using r1 by simp
    finally show ?thesis by simp
  qed
  have a2: "lam * x2 = y1 + y2 / 2" using r2 by (simp add: y1_def y2_def field_simps)
  have a3: "lam * x3 = - (s / 2 * y2)"
  proof -
    have "- (s / 2 * y2) = - (s / 4 * x2) + s * s / 4 * x3 + s / 4 * x4 - s * s / 4 * x5"
      by (simp add: y2_def algebra_simps)
    also have "\<dots> = lam * x3" unfolding s using r3 by simp
    finally show ?thesis by simp
  qed
  have a4: "lam * x4 = - (y2 / 2) + y3 / 2" using r4 by (simp add: y2_def y3_def field_simps)
  have a5: "lam * x5 = s / 2 * (y2 + y3)"
  proof -
    have "s / 2 * (y2 + y3)
        = - (s / 4 * x0) - s * s / 4 * x1 + s / 4 * x2 - s * s / 4 * x3 + s * s / 2 * x5"
      by (simp add: y2_def y3_def algebra_simps)
    also have "\<dots> = lam * x5" unfolding s using r5 by simp
    finally show ?thesis by simp
  qed
  have b1: "lam * y1 = 2 * y1 + y2 / 2 + y3 / 2"
  proof -
    have "lam * y1 = lam * x2 - lam * x0" by (simp add: y1_def algebra_simps)
    also have "\<dots> = 2 * y1 + y2 / 2 + y3 / 2" unfolding a0 a2 by simp
    finally show ?thesis .
  qed
  have b2: "lam * y2 = y1 / 2 + 2 * y2 + y3 / 2"
  proof -
    have "lam * y2 = 1 / 2 * (lam * x2) - s / 2 * (lam * x3) - 1 / 2 * (lam * x4)
        + s / 2 * (lam * x5)"
      by (simp add: y2_def algebra_simps)
    also have "\<dots> = y1 / 2 + y2 / 2 - y3 / 4 + s * s / 4 * y2 + s * s / 4 * (y2 + y3)"
      unfolding a2 a3 a4 a5 by (simp add: algebra_simps)
    also have "\<dots> = y1 / 2 + 2 * y2 + y3 / 2" unfolding s by (simp add: field_simps)
    finally show ?thesis .
  qed
  have b3: "lam * y3 = y1 / 2 + y2 / 2 + 2 * y3"
  proof -
    have "lam * y3 = - (1 / 2 * (lam * x0)) - s / 2 * (lam * x1) + 1 / 2 * (lam * x4)
        + s / 2 * (lam * x5)"
      by (simp add: y3_def algebra_simps)
    also have "\<dots> = y1 / 2 + y3 / 2 - y2 / 4 + s * s / 4 * y3 + s * s / 4 * (y2 + y3)"
      unfolding a0 a1 a4 a5 by (simp add: algebra_simps)
    also have "\<dots> = y1 / 2 + y2 / 2 + 2 * y3" unfolding s by (simp add: field_simps)
    finally show ?thesis .
  qed
  show ?thesis
  proof (rule ccontr)
    assume "\<not> (lam = 0 \<or> lam = 3 / 2 \<or> lam = 3)"
    then have l0: "lam \<noteq> 0" and l1: "lam - 3 / 2 \<noteq> 0" and l2: "lam - 3 \<noteq> 0" by simp_all
    define t where "t = y1 + y2 + y3"
    have "(lam - 3) * t = 0" using b1 b2 b3 unfolding t_def by (simp add: algebra_simps)
    with l2 have t0: "t = 0" by simp
    have "(lam - 3 / 2) * y1 = t / 2" "(lam - 3 / 2) * y2 = t / 2" "(lam - 3 / 2) * y3 = t / 2"
      using b1 b2 b3 unfolding t_def by (simp_all add: algebra_simps)
    with l1 t0 have y: "y1 = 0" "y2 = 0" "y3 = 0" by simp_all
    from a0 a1 a2 a3 a4 a5 l0 have "x0 = 0" "x1 = 0" "x2 = 0" "x3 = 0" "x4 = 0" "x5 = 0"
      unfolding y by simp_all
    with nz show False by simp
  qed
qed

subsection \<open>The hull of the triangle\<close>

lemma triangle_fields:
  "positions triangle = [(0, 0), (1, 0), (1 / 2, sqrt 3 / 2)]"
  "radii triangle = [1, 1, 1]"
  "2 * n triangle = 6"
  "contacts triangle = [(0, 1), (1, 2), (0, 2)]"
  by (simp_all add: triangle_def createConfiguration_def eval_nat_numeral)

lemma half_sqrt3_squares:
  "sqrt 3 * sqrt 3 / 4 + 1 / 4 = (1 :: real)" "1 / 4 + sqrt 3 * sqrt 3 / 4 = (1 :: real)"
  "(sqrt 3 / 2) ^ 2 = 3 / 4" "(sqrt 3) ^ 2 = 3"
  by (simp_all add: power2_eq_square)

lemma triangle_sorted:
  "jsSort compareXY [(0, 0, a), (1, 0, b), (1 / 2, sqrt 3 / 2, c)]
     = [(0, 0, a), (1 / 2, sqrt 3 / 2, c), (1, 0, b)]"
  by (simp add: jsSort_def compareXY_def xOf_def yOf_def)

lemma triangle_right_turn: "cross (0, 0, a) (1 / 2, sqrt 3 / 2, c) (1, 0, b) < - EPS"
proof -
  have "cross (0, 0, a) (1 / 2, sqrt 3 / 2, c) (1, 0, b) = - (sqrt 3 / 2)"
    by (simp add: cross_def xOf_def yOf_def)
  moreover have "EPS < 1 / 2" by (simp add: EPS_def)
  ultimately show ?thesis using sqrt3_gt1 by linarith
qed

lemma triangle_left_turn: "\<not> cross (1, 0, b) (1 / 2, sqrt 3 / 2, c) (0, 0, a) < - EPS"
proof -
  have "cross (1, 0, b) (1 / 2, sqrt 3 / 2, c) (0, 0, a) = sqrt 3 / 2"
    by (simp add: cross_def xOf_def yOf_def)
  moreover have "0 < EPS" by (simp add: EPS_def)
  ultimately show ?thesis using sqrt3_gt1 by linarith
qed

lemma triangle_lower:
  "halfHull [(0, 0, a), (1 / 2, sqrt 3 / 2, c), (1, 0, b)] = [(0, 0, a), (1, 0, b)]"
proof -
  have "popRightTurns (1, 0, b) ([] @ [(0, 0, a), (1 / 2, sqrt 3 / 2, c)])
      = popRightTurns (1, 0, b) ([] @ [(0, 0, a)])"
    by (rule popRightTurns_pop [OF triangle_right_turn])
  then have 3: "popRightTurns (1, 0, b) [(0, 0, a), (1 / 2, sqrt 3 / 2, c)] = [(0, 0, a)]"
    by (simp add: popRightTurns_short)
  show ?thesis by (simp add: halfHull_def popRightTurns_short 3)
qed

lemma triangle_upper:
  "halfHull [(1, 0, b), (1 / 2, sqrt 3 / 2, c), (0, 0, a)]
     = [(1, 0, b), (1 / 2, sqrt 3 / 2, c), (0, 0, a)]"
proof -
  have "popRightTurns (0, 0, a) ([] @ [(1, 0, b), (1 / 2, sqrt 3 / 2, c)])
      = [] @ [(1, 0, b), (1 / 2, sqrt 3 / 2, c)]"
    by (rule popRightTurns_keep [OF triangle_left_turn])
  then have 3: "popRightTurns (0, 0, a) [(1, 0, b), (1 / 2, sqrt 3 / 2, c)]
      = [(1, 0, b), (1 / 2, sqrt 3 / 2, c)]"
    by simp
  show ?thesis by (simp add: halfHull_def popRightTurns_short 3)
qed

lemma triangle_hull: "convexHullIndices [(0, 0), (1, 0), (1 / 2, sqrt 3 / 2)] = [0, 1, 2]"
  unfolding convexHullIndices_def Let_def
  by (simp add: triangle_sorted triangle_lower triangle_upper dedupe_def iOf_def upt_rec)

subsection \<open>Perimeter, gradient and contact matrix\<close>

lemma triangle_perimeterPolygon:
  "perimeterPolygon [(0, 0), (1, 0), (1 / 2, sqrt 3 / 2)] [0, 1, 2] = 3"
  by (simp add: perimeterPolygon_def distance_def upt_rec power2_eq_square half_sqrt3_squares
      power_divide)

lemma triangle_gradientPolygon:
  "gradientPolygon [(0, 0), (1, 0), (1 / 2, sqrt 3 / 2)] [0, 1, 2] (replicate 6 0)
     = [- (3 / 2), - (sqrt 3 / 2), 3 / 2, - (sqrt 3 / 2), 0, sqrt 3]"
  by (simp add: gradientPolygon_def upt_rec replicate_six arrayAdd_six Let_def
      half_sqrt3_squares power_divide)

lemma triangle_centeredRows:
  "centeredRows [(0, 0), (1, 0), (1 / 2, sqrt 3 / 2)]
     = [[- (1 / 2), - (sqrt 3 / 6)], [1 / 2, - (sqrt 3 / 6)], [0, sqrt 3 / 3]]"
  by (simp add: centeredRows_def Let_def)

lemma triangle_not_collinear:
  assumes "exactSingularValues svd (centeredRows [(0, 0), (1, 0), (1 / 2, sqrt 3 / 2)])"
  shows "\<not> isCollinear svd [(0, 0), (1, 0), (1 / 2, sqrt 3 / 2)]"
proof -
  let ?M = "centeredRows [(0, 0), (1, 0), (1 / 2, sqrt 3 / 2)]"
  obtain U s V where svd: "svd ?M = (U, s, V)" by (cases "svd ?M")
  have t: "(sqrt 3 / 6) ^ 2 = 1 / 12" "(sqrt 3 / 3) ^ 2 = 1 / 3"
    by (simp_all add: power2_eq_square)
  have a: "sum_list (map (\<lambda>r. (r ! 0) ^ 2) ?M) = 1 / 2"
    and c: "sum_list (map (\<lambda>r. (r ! 1) ^ 2) ?M) = 1 / 2"
    and b: "sum_list (map (\<lambda>r. r ! 0 * r ! 1) ?M) = 0"
    unfolding triangle_centeredRows by (simp_all add: t power2_eq_square)
  from assms have len: "length s = 2" and nn: "0 \<le> s ! 1"
    and tr': "(s ! 0) ^ 2 + (s ! 1) ^ 2
        = sum_list (map (\<lambda>r. (r ! 0) ^ 2) ?M) + sum_list (map (\<lambda>r. (r ! 1) ^ 2) ?M)"
    and det': "(s ! 0) ^ 2 * (s ! 1) ^ 2
        = sum_list (map (\<lambda>r. (r ! 0) ^ 2) ?M) * sum_list (map (\<lambda>r. (r ! 1) ^ 2) ?M)
          - (sum_list (map (\<lambda>r. r ! 0 * r ! 1) ?M)) ^ 2"
    unfolding exactSingularValues_def svd prod.case by blast+
  have tr: "(s ! 0) ^ 2 + (s ! 1) ^ 2 = 1" and det: "(s ! 0) ^ 2 * (s ! 1) ^ 2 = 1 / 4"
    unfolding tr' det' a b c by simp_all
  have "((s ! 0) ^ 2 - (s ! 1) ^ 2) ^ 2
      = ((s ! 0) ^ 2 + (s ! 1) ^ 2) ^ 2 - 4 * ((s ! 0) ^ 2 * (s ! 1) ^ 2)"
    by (simp add: power2_eq_square algebra_simps)
  then have "(s ! 0) ^ 2 = (s ! 1) ^ 2" unfolding tr det by simp
  with tr have half: "(s ! 1) ^ 2 = 1 / 2" by simp
  have big: "\<not> s ! 1 < 1 / 10 ^ 8"
  proof
    assume "s ! 1 < 1 / 10 ^ 8"
    with nn have "(s ! 1) ^ 2 \<le> (1 / 10 ^ 8) ^ 2" by (intro power_mono) simp_all
    moreover have "(1 / 10 ^ 8 :: real) ^ 2 < 1 / 2" by (simp add: power_divide)
    ultimately show False using half by linarith
  qed
  from len obtain s0 s1 where s: "s = [s0, s1]" by (cases s; cases "tl s") auto
  with big have "\<not> s1 < 1 / 10 ^ 8" by simp
  then show ?thesis by (simp add: isCollinear_def svd s)
qed

lemma triangle_buildContactMatrix: "buildContactMatrix triangle = Inr triangleA"
proof -
  have s: "arraySet [a0, a1, a2, a3, a4, a5] 0 v = [v, a1, a2, a3, a4, a5]"
    "arraySet [a0, a1, a2, a3, a4, a5] (Suc 0) v = [a0, v, a2, a3, a4, a5]"
    "arraySet [a0, a1, a2, a3, a4, a5] 2 v = [a0, a1, v, a3, a4, a5]"
    "arraySet [a0, a1, a2, a3, a4, a5] 3 v = [a0, a1, a2, v, a4, a5]"
    "arraySet [a0, a1, a2, a3, a4, a5] 4 v = [a0, a1, a2, a3, v, a5]"
    "arraySet [a0, a1, a2, a3, a4, a5] 5 v = [a0, a1, a2, a3, a4, v]"
    for a0 a1 a2 a3 a4 a5 v :: real
    by (simp_all add: arraySet_def eval_nat_numeral)
  show ?thesis
    by (simp add: buildContactMatrix_def triangle_def createConfiguration_def contactRow_def
        hasPosition_def Let_def replicate_six s triangleA_def half_sqrt3_squares)
qed

subsection \<open>The Hessians of the triangle\<close>

lemma triangle_euclidean:
  "euclideanPolygon [(0, 0), (1, 0), (1 / 2, sqrt 3 / 2)] [0, 1, 2] (zeros 6 6) =
      [[3 / 4, - (sqrt 3 / 4), 0, 0, - (3 / 4), sqrt 3 / 4],
       [- (sqrt 3 / 4), 5 / 4, 0, - 1, sqrt 3 / 4, - (1 / 4)],
       [0, 0, 3 / 4, sqrt 3 / 4, - (3 / 4), - (sqrt 3 / 4)],
       [0, - 1, sqrt 3 / 4, 5 / 4, - (sqrt 3 / 4), - (1 / 4)],
       [- (3 / 4), sqrt 3 / 4, - (3 / 4), - (sqrt 3 / 4), 3 / 2, 0],
       [sqrt 3 / 4, - (1 / 4), - (sqrt 3 / 4), - (1 / 4), 0, 1 / 2]]"
  by (simp add: euclideanPolygon_def upt_rec Let_def computeEdgeBlock_def addEdgeBlocks_def
      addBlock_def zeros_six matrixAdd_six arrayAdd_six half_sqrt3_squares power_divide)

lemma triangle_geometric:
  "buildGeometricHessian triangle [1, 1, 1] =
      [[- (3 / 8), sqrt 3 / 8, 0, 0, 3 / 8, - (sqrt 3 / 8)],
       [sqrt 3 / 8, - (5 / 8), 0, 1 / 2, - (sqrt 3 / 8), 1 / 8],
       [0, 0, - (3 / 8), - (sqrt 3 / 8), 3 / 8, sqrt 3 / 8],
       [0, 1 / 2, - (sqrt 3 / 8), - (5 / 8), sqrt 3 / 8, 1 / 8],
       [3 / 8, - (sqrt 3 / 8), 3 / 8, sqrt 3 / 8, - (3 / 4), 0],
       [- (sqrt 3 / 8), 1 / 8, sqrt 3 / 8, 1 / 8, 0, - (1 / 4)]]"
  by (simp add: buildGeometricHessian_def triangle_def createConfiguration_def upt_rec Let_def
      addEdgeBlocks_def addBlock_def zeros_six matrixAdd_six arrayAdd_six half_sqrt3_squares
      power_divide)

lemma triangle_total:
  "map (\<lambda>i. map (\<lambda>j.
      [[3 / 4, - (sqrt 3 / 4), 0, 0, - (3 / 4), sqrt 3 / 4],
       [- (sqrt 3 / 4), 5 / 4, 0, - 1, sqrt 3 / 4, - (1 / 4)],
       [0, 0, 3 / 4, sqrt 3 / 4, - (3 / 4), - (sqrt 3 / 4)],
       [0, - 1, sqrt 3 / 4, 5 / 4, - (sqrt 3 / 4), - (1 / 4)],
       [- (3 / 4), sqrt 3 / 4, - (3 / 4), - (sqrt 3 / 4), 3 / 2, 0],
       [sqrt 3 / 4, - (1 / 4), - (sqrt 3 / 4), - (1 / 4), 0, 1 / 2]] ! i ! j
    + [[- (3 / 8), sqrt 3 / 8, 0, 0, 3 / 8, - (sqrt 3 / 8)],
       [sqrt 3 / 8, - (5 / 8), 0, 1 / 2, - (sqrt 3 / 8), 1 / 8],
       [0, 0, - (3 / 8), - (sqrt 3 / 8), 3 / 8, sqrt 3 / 8],
       [0, 1 / 2, - (sqrt 3 / 8), - (5 / 8), sqrt 3 / 8, 1 / 8],
       [3 / 8, - (sqrt 3 / 8), 3 / 8, sqrt 3 / 8, - (3 / 4), 0],
       [- (sqrt 3 / 8), 1 / 8, sqrt 3 / 8, 1 / 8, 0, - (1 / 4)]] ! i ! j) [0..<6]) [0..<6]
   = triangleH"
  by (simp add: upt_rec triangleH_def)

lemma triangle_multipliers:
  assumes "exactThinSVD svd (transposeM triangleA)"
  shows "solveLagrangeMultipliers svd triangleA
      [- (3 / 2), - (sqrt 3 / 2), 3 / 2, - (sqrt 3 / 2), 0, sqrt 3] = [1, 1, 1]"
proof (rule solveLagrangeMultipliers_exact [OF _ _ assms])
  show "triangleA \<noteq> []" by (simp add: triangleA_def)
  show "0 < numCols triangleA" by (simp add: triangleA_def numCols_def)
  show "length [- (3 / 2), - (sqrt 3 / 2), 3 / 2, - (sqrt 3 / 2), 0, sqrt 3] = numCols triangleA"
    by (simp add: triangleA_def numCols_def)
  show "length [1, 1, 1 :: real] = length triangleA" by (simp add: triangleA_def)
  have nc: "numCols triangleA = 6" "length triangleA = 3"
    by (simp_all add: triangleA_def numCols_def)
  show "\<forall>k < numCols triangleA.
      [- (3 / 2), - (sqrt 3 / 2), 3 / 2, - (sqrt 3 / 2), 0, sqrt 3] ! k
        = (\<Sum>j < length triangleA. triangleA ! j ! k * [1, 1, 1] ! j)"
    unfolding nc all_less_6 sum_less_3 by (simp add: triangleA_def)
qed

subsection \<open>The rolling space\<close>

lemma triangle_transposeM:
  "transposeM triangleA = [[- 1, 0, - (1 / 2)], [0, 0, - (sqrt 3 / 2)], [1, 1 / 2, 0],
     [0, - (sqrt 3 / 2), 0], [0, - (1 / 2), 1 / 2], [0, sqrt 3 / 2, sqrt 3 / 2]]"
proof -
  have nc: "numCols triangleA = 6" by (simp add: triangleA_def numCols_def)
  have six: "[0..<6] = [0, 1, 2, 3, 4, 5]" by (simp add: upt_rec)
  show ?thesis
    unfolding transposeM_def nc six by (simp add: column_def triangleA_def)
qed

lemma triangle_gram: "mmul (transposeM triangleA) triangleA = triangleGram"
proof -
  have nc: "numCols triangleA = 6" by (simp add: triangleA_def numCols_def)
  have six: "[0..<6] = [0, 1, 2, 3, 4, 5]" by (simp add: upt_rec)
  have cols: "map (column triangleA) [0, 1, 2, 3, 4, 5] = transposeM triangleA"
    unfolding transposeM_def nc six by simp
  show ?thesis
    unfolding mmul_def nc six list.map cols [simplified] triangle_transposeM triangleGram_def
    by (simp add: dot_def column_def triangleA_def)
qed

lemma triangleGram_trace: "(\<Sum>i < 6. triangleGram ! i ! i) = 6"
  unfolding sum_less_6 triangleGram_def by simp

lemma triangleGram_frobenius:
  "(\<Sum>i < 6. \<Sum>l < 6. triangleGram ! i ! l * triangleGram ! i ! l) = 27 / 2"
  unfolding sum_less_6 triangleGram_def by simp

text \<open>
  Every exact decomposition of \<open>A\<^sup>T A\<close> returns the eigenvalues \<open>0, 0, 0, 3/2, 3/2, 3\<close>: each
  eigenvalue is one of \<open>0, 3/2, 3\<close>, their sum is the trace 6 and the sum of their squares
  is \<open>27/2\<close>.
\<close>

lemma exactEigen_gram_spectrum:
  assumes "exactEigen eig triangleGram"
  shows "spectrumOf eig triangleGram {#0, 0, 0, 3 / 2, 3 / 2, 3#}"
proof -
  obtain ev V where e: "eig triangleGram = (ev, V)" by (cases "eig triangleGram")
  have l: "length triangleGram = 6" by (simp add: triangleGram_def)
  from assms have len: "length ev = 6" "length V = 6"
    and mv: "\<forall>i < 6. \<forall>j < 6. (\<Sum>k < 6. triangleGram ! i ! k * V ! k ! j) = V ! i ! j * ev ! j"
    and cols: "\<forall>i < 6. \<forall>j < 6. (\<Sum>k < 6. V ! k ! i * V ! k ! j) = (if i = j then 1 else 0)"
    and rows: "\<forall>i < 6. \<forall>j < 6. (\<Sum>k < 6. V ! i ! k * V ! j ! k) = (if i = j then 1 else 0)"
    unfolding exactEigen_def e prod.case l by blast+
  have vals: "ev ! j = 0 \<or> ev ! j = 3 / 2 \<or> ev ! j = 3" if j: "j < 6" for j
  proof (rule gram_eigenvalue [where s = "sqrt 3" and ?x0.0 = "V ! 0 ! j" and ?x1.0 = "V ! 1 ! j"
        and ?x2.0 = "V ! 2 ! j" and ?x3.0 = "V ! 3 ! j" and ?x4.0 = "V ! 4 ! j"
        and ?x5.0 = "V ! 5 ! j" and lam = "ev ! j"])
    show "sqrt 3 * sqrt 3 = 3" by simp
    show "5 / 4 * (V ! 0 ! j) + sqrt 3 / 4 * (V ! 1 ! j) - V ! 2 ! j - 1 / 4 * (V ! 4 ! j)
        - sqrt 3 / 4 * (V ! 5 ! j) = ev ! j * (V ! 0 ! j)"
      using mv [rule_format, of 0 j] j by (simp add: sum_less_6 triangleGram_def)
    show "sqrt 3 / 4 * (V ! 0 ! j) + 3 / 4 * (V ! 1 ! j) - sqrt 3 / 4 * (V ! 4 ! j)
        - 3 / 4 * (V ! 5 ! j) = ev ! j * (V ! 1 ! j)"
      using mv [rule_format, of 1 j] j by (simp add: sum_less_6 triangleGram_def)
    show "- (V ! 0 ! j) + 5 / 4 * (V ! 2 ! j) - sqrt 3 / 4 * (V ! 3 ! j) - 1 / 4 * (V ! 4 ! j)
        + sqrt 3 / 4 * (V ! 5 ! j) = ev ! j * (V ! 2 ! j)"
      using mv [rule_format, of 2 j] j by (simp add: sum_less_6 triangleGram_def)
    show "- (sqrt 3 / 4 * (V ! 2 ! j)) + 3 / 4 * (V ! 3 ! j) + sqrt 3 / 4 * (V ! 4 ! j)
        - 3 / 4 * (V ! 5 ! j) = ev ! j * (V ! 3 ! j)"
      using mv [rule_format, of 3 j] j by (simp add: sum_less_6 triangleGram_def)
    show "- (1 / 4 * (V ! 0 ! j)) - sqrt 3 / 4 * (V ! 1 ! j) - 1 / 4 * (V ! 2 ! j)
        + sqrt 3 / 4 * (V ! 3 ! j) + 1 / 2 * (V ! 4 ! j) = ev ! j * (V ! 4 ! j)"
      using mv [rule_format, of 4 j] j by (simp add: sum_less_6 triangleGram_def)
    show "- (sqrt 3 / 4 * (V ! 0 ! j)) - 3 / 4 * (V ! 1 ! j) + sqrt 3 / 4 * (V ! 2 ! j)
        - 3 / 4 * (V ! 3 ! j) + 3 / 2 * (V ! 5 ! j) = ev ! j * (V ! 5 ! j)"
      using mv [rule_format, of 5 j] j by (simp add: sum_less_6 triangleGram_def)
    show "V ! 0 ! j * (V ! 0 ! j) + V ! 1 ! j * (V ! 1 ! j) + V ! 2 ! j * (V ! 2 ! j)
        + V ! 3 ! j * (V ! 3 ! j) + V ! 4 ! j * (V ! 4 ! j) + V ! 5 ! j * (V ! 5 ! j) = 1"
      using cols [rule_format, of j j] j by (simp add: sum_less_6)
  qed
  have mv': "(\<Sum>l < 6. triangleGram ! i ! l * V ! l ! j) = V ! i ! j * ev ! j"
    if "i < 6" "j < 6" for i j using mv that by blast
  have cols': "(\<Sum>i < 6. V ! i ! j * V ! i ! j) = 1" if "j < 6" for j
    using cols that by simp
  have rows': "(\<Sum>j < 6. V ! i ! j * V ! k ! j) = (if i = k then 1 else 0)"
    if "i < 6" "k < 6" for i k using rows that by blast
  have "(\<Sum>j < 6. ev ! j) = (\<Sum>i < 6. triangleGram ! i ! i)"
    by (rule eigen_trace [of 6 "\<lambda>i l. triangleGram ! i ! l" "\<lambda>i j. V ! i ! j" "\<lambda>j. ev ! j",
          OF mv' cols' rows'])
  then have s1: "sum_list ev = 6"
    using sum_list_nth [of "\<lambda>x. x" ev] by (simp add: len triangleGram_trace)
  have "(\<Sum>j < 6. ev ! j * ev ! j)
      = (\<Sum>i < 6. \<Sum>l < 6. triangleGram ! i ! l * triangleGram ! i ! l)"
    by (rule eigen_frobenius [of 6 "\<lambda>i l. triangleGram ! i ! l" "\<lambda>i j. V ! i ! j"
          "\<lambda>j. ev ! j", OF mv' cols' rows'])
  then have s2: "sum_list (map (\<lambda>x. x * x) ev) = 27 / 2"
    using sum_list_nth [of "\<lambda>x. x * x" ev] by (simp add: len triangleGram_frobenius)
  have "\<forall>x \<in> set ev. x = 0 \<or> x = 3 / 2 \<or> x = 3"
  proof
    fix x assume "x \<in> set ev"
    then obtain j where j: "j < length ev" and x: "x = ev ! j" by (metis in_set_conv_nth)
    from j have "j < 6" unfolding len(1) .
    from vals [OF this] show "x = 0 \<or> x = 3 / 2 \<or> x = 3" unfolding x .
  qed
  then have "mset ev = {#0, 0, 0, 3 / 2, 3 / 2, 3#}"
    using len(1) s1 s2 by (intro spectrum_from_moments) simp_all
  then show ?thesis unfolding spectrumOf_def e prod.case l using len by simp
qed

lemma triangle_rollingSpaceBasis:
  assumes "spectrumOf eig (mmul (transposeM triangleA) triangleA) {#0, 0, 0, 3 / 2, 3 / 2, 3#}"
  shows "length (rollingSpaceBasis eig triangleA (1 / 10 ^ 10)) = 6
    \<and> (\<forall>row \<in> set (rollingSpaceBasis eig triangleA (1 / 10 ^ 10)). length row = 3)"
proof -
  obtain ev V where e: "eig (mmul (transposeM triangleA) triangleA) = (ev, V)"
    by (cases "eig (mmul (transposeM triangleA) triangleA)")
  have l3: "length triangleA = 3" by (simp add: triangleA_def)
  have l6: "length (mmul (transposeM triangleA) triangleA) = 6"
    by (simp add: mmul_def transposeM_def numCols_def triangleA_def)
  from assms have ms: "mset ev = {#0, 0, 0, 3 / 2, 3 / 2, 3#}" and lV: "length V = 6"
    unfolding spectrumOf_def e prod.case l6 by simp_all
  have "length (filter (\<lambda>i. \<bar>ev ! i\<bar> < 1 / 10 ^ 10) [0..<length ev])
      = size (filter_mset (\<lambda>x. \<bar>x\<bar> < 1 / 10 ^ 10) (mset ev))"
    by (rule length_filter_nth)
  also have "\<dots> = 3" unfolding ms by simp
  finally have three: "length (filter (\<lambda>i. \<bar>ev ! i\<bar> < 1 / 10 ^ 10) [0..<length ev]) = 3" .
  have nz: "(length triangleA = 0) = False"
    "(length (filter (\<lambda>i. \<bar>ev ! i\<bar> < 1 / 10 ^ 10) [0..<length ev]) = 0) = False"
    using l3 three by simp_all
  have "rollingSpaceBasis eig triangleA (1 / 10 ^ 10)
      = map (\<lambda>row. map (\<lambda>colIdx. row ! colIdx)
              (filter (\<lambda>i. \<bar>ev ! i\<bar> < 1 / 10 ^ 10) [0..<length ev])) V"
    unfolding rollingSpaceBasis_def e prod.case Let_def nz if_False ..
  then show ?thesis using three lV by simp
qed

subsection \<open>The projected Hessian has no negative eigenvalue\<close>

lemma mmul_nth:
  assumes "i < length A" "j < numCols B" "length (A ! i) = length B"
  shows "mmul A B ! i ! j = (\<Sum>k < length B. A ! i ! k * B ! k ! j)"
proof -
  have "mmul A B ! i ! j = dot (A ! i) (column B j)"
    using assms(1,2) by (simp add: mmul_def)
  also have "\<dots> = (\<Sum>k < length (A ! i). A ! i ! k * column B j ! k)"
    by (rule dot_sum) (simp add: column_def assms(3))
  also have "\<dots> = (\<Sum>k < length B. A ! i ! k * B ! k ! j)"
    unfolding assms(3) by (rule sum.cong [OF refl]) (simp add: column_def)
  finally show ?thesis .
qed

lemma length_mmul [simp]: "length (mmul A B) = length A"
  by (simp add: mmul_def)

lemma length_mmul_row: "i < length A \<Longrightarrow> length (mmul A B ! i) = numCols B"
  by (simp add: mmul_def)

lemma projectToRoll_nth:
  assumes lR: "length R = 6" and rR: "\<forall>row \<in> set R. length row = 3"
    and i: "i < 3" and j: "j < 3"
  shows "projectToRoll triangleH R ! i ! j
    = (\<Sum>l < 6. (\<Sum>k < 6. R ! k ! i * triangleH ! k ! l) * R ! l ! j)"
    and "length (projectToRoll triangleH R) = 3"
proof -
  have ne: "R \<noteq> []" using lR by auto
  have nc: "numCols R = 3" using lR rR by (cases R) (auto simp: numCols_def)
  have tr: "length (transposeM R) = 3" "numCols (transposeM R) = 6"
    using numCols_transposeM [OF ne] nc lR by simp_all
  have lH: "length triangleH = 6" and ncH: "numCols triangleH = 6"
    by (simp_all add: triangleH_def numCols_def)
  have ri: "length (transposeM R ! i) = 6"
    using i nc lR by (simp add: transposeM_def column_def)
  have first: "mmul (transposeM R) triangleH ! i ! l = (\<Sum>k < 6. R ! k ! i * triangleH ! k ! l)"
    if l: "l < 6" for l
  proof -
    have "mmul (transposeM R) triangleH ! i ! l
        = (\<Sum>k < length triangleH. transposeM R ! i ! k * triangleH ! k ! l)"
      by (rule mmul_nth) (simp_all add: tr i l ncH ri lH)
    also have "\<dots> = (\<Sum>k < 6. R ! k ! i * triangleH ! k ! l)"
      unfolding lH
      by (rule sum.cong [OF refl]) (simp add: nth_transposeM nc i lR)
    finally show ?thesis .
  qed
  have li: "length (mmul (transposeM R) triangleH ! i) = length R"
    using length_mmul_row [of i "transposeM R" triangleH] tr i ncH lR by simp
  have "projectToRoll triangleH R ! i ! j
      = (\<Sum>l < length R. mmul (transposeM R) triangleH ! i ! l * R ! l ! j)"
    unfolding projectToRoll_def by (rule mmul_nth) (simp_all add: tr i j nc li)
  also have "\<dots> = (\<Sum>l < 6. (\<Sum>k < 6. R ! k ! i * triangleH ! k ! l) * R ! l ! j)"
    unfolding lR by (rule sum.cong [OF refl]) (simp add: first)
  finally show "projectToRoll triangleH R ! i ! j
    = (\<Sum>l < 6. (\<Sum>k < 6. R ! k ! i * triangleH ! k ! l) * R ! l ! j)" .
  show "length (projectToRoll triangleH R) = 3"
    unfolding projectToRoll_def by (simp add: tr)
qed

lemma project_first:
  fixes w :: "nat \<Rightarrow> real" and r h :: "nat \<Rightarrow> nat \<Rightarrow> real"
  shows "(\<Sum>i < 3. w i * (\<Sum>k < 6. r k i * h k l)) = (\<Sum>k < 6. (\<Sum>i < 3. r k i * w i) * h k l)"
  by (simp add: sum_less_3 sum_less_6 algebra_simps)

lemma project_second:
  fixes w :: "nat \<Rightarrow> real" and r c :: "nat \<Rightarrow> nat \<Rightarrow> real"
  shows "(\<Sum>i < 3. \<Sum>j < 3. w i * (\<Sum>l < 6. c i l * r l j) * w j)
    = (\<Sum>l < 6. (\<Sum>i < 3. w i * c i l) * (\<Sum>j < 3. r l j * w j))"
  by (simp add: sum_less_3 sum_less_6 algebra_simps)

lemma quadratic_form_projected:
  fixes w :: "nat \<Rightarrow> real" and r h :: "nat \<Rightarrow> nat \<Rightarrow> real"
  shows "(\<Sum>i < 3. \<Sum>j < 3. w i * (\<Sum>l < 6. (\<Sum>k < 6. r k i * h k l) * r l j) * w j)
    = (\<Sum>k < 6. \<Sum>l < 6. (\<Sum>i < 3. r k i * w i) * h k l * (\<Sum>j < 3. r l j * w j))"
proof -
  have "(\<Sum>i < 3. \<Sum>j < 3. w i * (\<Sum>l < 6. (\<Sum>k < 6. r k i * h k l) * r l j) * w j)
      = (\<Sum>l < 6. (\<Sum>i < 3. w i * (\<Sum>k < 6. r k i * h k l)) * (\<Sum>j < 3. r l j * w j))"
    by (rule project_second)
  also have "\<dots> = (\<Sum>l < 6. (\<Sum>k < 6. (\<Sum>i < 3. r k i * w i) * h k l) * (\<Sum>j < 3. r l j * w j))"
    unfolding project_first ..
  also have "\<dots> = (\<Sum>l < 6. \<Sum>k < 6. (\<Sum>i < 3. r k i * w i) * h k l * (\<Sum>j < 3. r l j * w j))"
    by (simp add: sum_distrib_right)
  also have "\<dots> = (\<Sum>k < 6. \<Sum>l < 6. (\<Sum>i < 3. r k i * w i) * h k l * (\<Sum>j < 3. r l j * w j))"
    by (rule sum.swap)
  finally show ?thesis .
qed

lemma quadratic_form_symmetrized:
  fixes w :: "nat \<Rightarrow> real" and x :: "nat \<Rightarrow> nat \<Rightarrow> real"
  shows "(\<Sum>i < 3. \<Sum>j < 3. w i * ((x i j + x j i) / 2) * w j) = (\<Sum>i < 3. \<Sum>j < 3. w i * x i j * w j)"
  by (simp add: sum_less_3 field_simps)

text \<open>
  \<^const>\<open>triangleH\<close> is a sum of squares: half the squared change of each edge across its
  direction.
\<close>

lemma triangleH_sum_of_squares:
  fixes y :: "nat \<Rightarrow> real"
  shows "(\<Sum>k < 6. \<Sum>l < 6. y k * triangleH ! k ! l * y l)
    = 1 / 2 * ((y 3 - y 1) ^ 2
        + (sqrt 3 / 2 * (y 4 - y 2) + 1 / 2 * (y 5 - y 3)) ^ 2
        + (- (sqrt 3 / 2) * (y 4 - y 0) + 1 / 2 * (y 5 - y 1)) ^ 2)"
  unfolding sum_less_6 triangleH_def
  by (simp add: power2_eq_square field_simps sqrt_products)

lemma triangleH_nonnegative:
  fixes y :: "nat \<Rightarrow> real"
  shows "0 \<le> (\<Sum>k < 6. \<Sum>l < 6. y k * triangleH ! k ! l * y l)"
  unfolding triangleH_sum_of_squares by simp

lemma symmetrize_nth:
  "i < length H \<Longrightarrow> j < length H \<Longrightarrow> symmetrize H ! i ! j = (H ! i ! j + H ! j ! i) / 2"
  by (simp add: symmetrize_def)

lemma length_symmetrize [simp]: "length (symmetrize H) = length H"
  by (simp add: symmetrize_def)

lemma projected_eigenvalues_nonnegative:
  assumes lR: "length R = 6" and rR: "\<forall>row \<in> set R. length row = 3"
    and ex: "exactEigen eig (symmetrize (projectToRoll triangleH R))"
    and e: "eig (symmetrize (projectToRoll triangleH R)) = (ev, V)"
  shows "length ev = 3 \<and> (\<forall>k < 3. 0 \<le> ev ! k)"
proof -
  let ?X = "projectToRoll triangleH R"
  have lX: "length ?X = 3" by (rule projectToRoll_nth(2) [OF lR rR, of 0 0]) simp_all
  have lS: "length (symmetrize ?X) = 3" using lX by simp
  from ex have len: "length ev = 3"
    and mv: "\<forall>i < 3. \<forall>j < 3. (\<Sum>k < 3. symmetrize ?X ! i ! k * V ! k ! j) = V ! i ! j * ev ! j"
    and cols: "\<forall>i < 3. \<forall>j < 3. (\<Sum>k < 3. V ! k ! i * V ! k ! j) = (if i = j then 1 else 0)"
    unfolding exactEigen_def e prod.case lS by blast+
  have "0 \<le> ev ! k" if k: "k < 3" for k
  proof -
    define w where "w i = V ! i ! k" for i
    define y where "y m = (\<Sum>i < 3. R ! m ! i * w i)" for m
    have unit: "(\<Sum>i < 3. w i * w i) = 1" using cols k by (simp add: w_def)
    have "ev ! k = (\<Sum>i < 3. w i * w i) * ev ! k" unfolding unit by simp
    also have "\<dots> = (\<Sum>i < 3. w i * (w i * ev ! k))"
      by (simp add: sum_distrib_right mult.assoc)
    also have "\<dots> = (\<Sum>i < 3. w i * (\<Sum>j < 3. symmetrize ?X ! i ! j * w j))"
      by (rule sum.cong [OF refl]) (simp add: w_def mv k)
    also have "\<dots> = (\<Sum>i < 3. \<Sum>j < 3. w i * ((?X ! i ! j + ?X ! j ! i) / 2) * w j)"
      by (rule sum.cong [OF refl], simp add: sum_distrib_left mult.assoc,
          rule sum.cong [OF refl]) (simp add: symmetrize_nth lX)
    also have "\<dots> = (\<Sum>i < 3. \<Sum>j < 3. w i * ?X ! i ! j * w j)"
      by (rule quadratic_form_symmetrized)
    also have "\<dots> = (\<Sum>i < 3. \<Sum>j < 3.
        w i * (\<Sum>l < 6. (\<Sum>m < 6. R ! m ! i * triangleH ! m ! l) * R ! l ! j) * w j)"
      by (rule sum.cong [OF refl], rule sum.cong [OF refl])
        (simp add: projectToRoll_nth(1) [OF lR rR])
    also have "\<dots> = (\<Sum>m < 6. \<Sum>l < 6. y m * triangleH ! m ! l * y l)"
      unfolding y_def by (rule quadratic_form_projected)
    finally show ?thesis using triangleH_nonnegative [of y] by simp
  qed
  with len show ?thesis by blast
qed

subsection \<open>The analysis of the triangle\<close>

lemma triangle_analysis:
  assumes e1: "exactEigen eig (mmul (transposeM triangleA) triangleA)"
    and e2: "exactEigen eig (symmetrize (projectToRoll triangleH
               (rollingSpaceBasis eig triangleA (1 / 10 ^ 10))))"
    and s1: "exactSingularValues svd (centeredRows (positions triangle))"
    and s2: "exactThinSVD svd (transposeM triangleA)"
  shows "\<exists>c h. computeConstraints eig triangle = Inr c \<and> dimension c = 3
     \<and> computeHessian svd eig triangle (rollingMatrix c) = Inr h
     \<and> indexMorseCritical h = 0 \<and> isLocalMinimum h = True
     \<and> perimeterOfDisks svd triangle = Some (3 + 2 * pi)"
proof -
  define R where "R = rollingSpaceBasis eig triangleA (1 / 10 ^ 10)"
  have sp: "spectrumOf eig (mmul (transposeM triangleA) triangleA) {#0, 0, 0, 3 / 2, 3 / 2, 3#}"
    using e1 unfolding triangle_gram by (rule exactEigen_gram_spectrum)
  from triangle_rollingSpaceBasis [OF sp]
  have lR: "length R = 6" and rR: "\<forall>row \<in> set R. length row = 3" unfolding R_def by auto
  then have R0: "length (R ! 0) = 3" by (metis nth_mem zero_less_numeral)
  have cc: "computeConstraints eig triangle =
      Inr \<lparr> contactMatrix = triangleA, rollingMatrix = R, dimension = 3 \<rparr>"
    unfolding computeConstraints_def triangle_buildContactMatrix sum.case Let_def R_def [symmetric]
    using lR R0 by simp
  have nc: "\<not> isCollinear svd (positions triangle)"
    using s1 unfolding triangle_fields by (rule triangle_not_collinear)
  have hl: "convexHullIndices (positions triangle) = [0, 1, 2]"
    unfolding triangle_fields by (rule triangle_hull)
  have "perimeterOfCenters svd triangle = perimeterPolygon (positions triangle) [0, 1, 2]"
    using nc by (simp add: perimeterOfCenters_def hl)
  then have pc: "perimeterOfCenters svd triangle = 3"
    unfolding triangle_fields triangle_perimeterPolygon .
  have pd: "perimeterOfDisks svd triangle = Some (3 + 2 * pi)"
    by (simp add: perimeterOfDisks_def triangle_fields pc)
  have "buildEuclideanHessian svd triangle
      = euclideanPolygon (positions triangle) [0, 1, 2] (zeros (2 * n triangle) (2 * n triangle))"
    using nc by (simp add: buildEuclideanHessian_def hl Let_def)
  note he = this [unfolded triangle_fields triangle_euclidean]
  have "perimeterGradient svd triangle
      = gradientPolygon (positions triangle) [0, 1, 2] (replicate (2 * n triangle) 0)"
    using nc by (simp add: perimeterGradient_def hl Let_def)
  note gr = this [unfolded triangle_fields triangle_gradientPolygon]
  note lam = triangle_multipliers [OF s2]
  have roll: "(if length R > 0 then length (R ! 0) else 0) = 3" using lR R0 by simp
  let ?X = "projectToRoll triangleH R"
  obtain ev V where e: "eig (symmetrize ?X) = (ev, V)" by (cases "eig (symmetrize ?X)")
  obtain vals vecs where isp: "intrinsicSpectrum eig ?X (1 / 10 ^ 10) = (vals, vecs)"
    by (cases "intrinsicSpectrum eig ?X (1 / 10 ^ 10)")
  from projected_eigenvalues_nonnegative [OF lR rR e2 [folded R_def] e]
  have lev: "length ev = 3" and pos: "\<forall>k < 3. 0 \<le> ev ! k" by blast+
  from intrinsicSpectrum_sorted [OF isp] obtain perm
    where perm: "mset perm = mset [0..<length ev]"
      and vals: "vals = map (\<lambda>i. map (\<lambda>v. if \<bar>v\<bar> < 1 / 10 ^ 10 then 0 else v) ev ! i) perm"
    unfolding e by auto
  have "0 \<le> v" if "v \<in> set vals" for v
  proof -
    from that obtain i where i: "i \<in> set perm"
      and v: "v = map (\<lambda>v. if \<bar>v\<bar> < 1 / 10 ^ 10 then 0 else v) ev ! i"
      unfolding vals by auto
    from i perm have "i \<in> set [0..<length ev]" by (metis set_mset_mset)
    then have "i < 3" using lev by simp
    with pos lev show ?thesis unfolding v by simp
  qed
  then have "\<forall>v \<in> set vals. \<not> v < - (1 / 10 ^ 6)" by fastforce
  then have none: "filter (\<lambda>v. v < - (1 / 10 ^ 6)) vals = []"
    unfolding filter_empty_conv .
  have ch: "computeHessian svd eig triangle R =
      Inr \<lparr> hessian = ?X, eigenvalues = vals, eigenvectors = vecs,
            isLocalMinimum = True, indexMorseCritical = 0 \<rparr>"
    unfolding computeHessian_def Let_def roll triangle_buildContactMatrix sum.case he gr lam
      triangle_geometric triangle_fields triangle_total isp prod.case none
    by simp
  show ?thesis
    by (rule exI [of _ "\<lparr> contactMatrix = triangleA, rollingMatrix = R, dimension = 3 \<rparr>"],
        rule exI [of _ "\<lparr> hessian = ?X, eigenvalues = vals, eigenvectors = vecs,
            isLocalMinimum = True, indexMorseCritical = 0 \<rparr>"])
      (simp add: cc ch pd)
qed

subsection \<open>The explicit decompositions are exact\<close>

lemma triangleSVD_exact: "exactThinSVD triangleSVD (transposeM triangleA)"
proof -
  have l: "length (transposeM triangleA) = 6" "numCols (transposeM triangleA) = 3"
    by (simp_all add: triangle_transposeM numCols_def)
  have svd: "triangleSVD (transposeM triangleA) = (triangleU, triangleS, triangleV)"
    by (simp add: triangleSVD_def l)
  have mx: "maxOf triangleS = sqrt 3"
    by (simp add: maxOf_def triangleS_def max_def field_simps)
  have q: "1 < sqrt 2" "sqrt 2 < 2"
    by (simp, rule real_less_lsqrt) simp_all
  have h: "1 < sqrt 3" by simp
  have big: "1 / 10 ^ 10 * sqrt 3 < sqrt 3 / sqrt 2"
  proof -
    have "sqrt 3 / 2 < sqrt 3 / sqrt 2" using q h by (intro divide_strict_left_mono) simp_all
    moreover have "1 / 10 ^ 10 * sqrt 3 < sqrt 3 / 2" using h by simp
    ultimately show ?thesis by linarith
  qed
  have shape: "length triangleU = 6" "\<forall>row \<in> set triangleU. length row = 3"
    "length triangleS = 3" "length triangleV = 3" "\<forall>row \<in> set triangleV. length row = 3"
    by (simp_all add: triangleU_def triangleS_def triangleV_def)
  have prod: "\<forall>k < 6. \<forall>j < 3. transposeM triangleA ! k ! j
      = (\<Sum>i < 3. triangleU ! k ! i * triangleS ! i * triangleV ! j ! i)"
    unfolding all_less_6 all_less_3 sum_less_3 triangle_transposeM triangleU_def triangleS_def
      triangleV_def
    by (simp add: field_simps sqrt_products)
  have uu: "\<forall>i < 3. \<forall>i' < 3. (\<Sum>k < 6. triangleU ! k ! i * triangleU ! k ! i')
      = (if i = i' then 1 else 0)"
    unfolding all_less_3 sum_less_6 triangleU_def
    by (simp add: field_simps sqrt_products)
  have vv: "\<forall>j < 3. \<forall>j' < 3. (\<Sum>i < 3. triangleV ! j ! i * triangleV ! j' ! i)
      = (if j = j' then 1 else 0)"
    unfolding all_less_3 sum_less_3 triangleV_def
    by (simp add: field_simps sqrt_products)
  have tr: "\<forall>i < 3. 1 / 10 ^ 10 * maxOf triangleS < triangleS ! i"
    unfolding mx all_less_3 using big h by (simp add: triangleS_def)
  show ?thesis
    unfolding exactThinSVD_def svd prod.case l using shape prod uu vv tr by blast
qed

lemma triangleSVD_centered: "exactSingularValues triangleSVD (centeredRows (positions triangle))"
  unfolding triangle_fields triangle_centeredRows exactSingularValues_def
  by (simp add: triangleSVD_def power2_eq_square algebra_simps)

lemma triangleEig_gram_exact: "exactEigen triangleEig (mmul (transposeM triangleA) triangleA)"
proof -
  have l: "length triangleGram = 6" by (simp add: triangleGram_def)
  have e: "triangleEig triangleGram = ([0, 0, 0, 3, 3 / 2, 3 / 2], triangleEigV)"
    by (simp add: triangleEig_def l)
  have shape: "length [0 :: real, 0, 0, 3, 3 / 2, 3 / 2] = 6" "length triangleEigV = 6"
    "\<forall>row \<in> set triangleEigV. length row = 6"
    by (simp_all add: triangleEigV_def)
  have mv: "\<forall>i < 6. \<forall>j < 6. (\<Sum>k < 6. triangleGram ! i ! k * triangleEigV ! k ! j)
      = triangleEigV ! i ! j * [0, 0, 0, 3, 3 / 2, 3 / 2] ! j"
    unfolding all_less_6 sum_less_6 triangleGram_def triangleEigV_def
    by (simp add: field_simps sqrt_products)
  have vv: "\<forall>i < 6. \<forall>j < 6. (\<Sum>k < 6. triangleEigV ! k ! i * triangleEigV ! k ! j)
      = (if i = j then 1 else 0)"
    unfolding all_less_6 sum_less_6 triangleEigV_def
    by (simp add: field_simps sqrt_products)
  have vvt: "\<forall>i < 6. \<forall>j < 6. (\<Sum>k < 6. triangleEigV ! i ! k * triangleEigV ! j ! k)
      = (if i = j then 1 else 0)"
    unfolding all_less_6 sum_less_6 triangleEigV_def
    by (simp add: field_simps sqrt_products)
  show ?thesis
    unfolding triangle_gram exactEigen_def e prod.case l using shape mv vv vvt by blast
qed

lemma triangle_rolling_explicit:
  "rollingSpaceBasis triangleEig triangleA (1 / 10 ^ 10) = triangleR"
proof -
  have e: "triangleEig (mmul (transposeM triangleA) triangleA)
      = ([0, 0, 0, 3, 3 / 2, 3 / 2], triangleEigV)"
    unfolding triangle_gram by (simp add: triangleEig_def triangleGram_def)
  have l3: "(length triangleA = 0) = False" by (simp add: triangleA_def)
  have six: "[0..<length [0 :: real, 0, 0, 3, 3 / 2, 3 / 2]] = [0, 1, 2, 3, 4, 5]"
    by (simp add: upt_rec)
  have f: "filter (\<lambda>i. \<bar>[0 :: real, 0, 0, 3, 3 / 2, 3 / 2] ! i\<bar> < 1 / 10 ^ 10) [0, 1, 2, 3, 4, 5]
      = [0, 1, 2]"
    by simp
  have nz: "(length [0 :: nat, 1, 2] = 0) = False" by simp
  show ?thesis
    unfolding rollingSpaceBasis_def e prod.case Let_def l3 if_False six f nz
    by (simp add: triangleEigV_def triangleR_def)
qed

lemma triangle_constraints_explicit:
  "computeConstraints triangleEig triangle =
     Inr \<lparr> contactMatrix = triangleA, rollingMatrix = triangleR, dimension = 3 \<rparr>"
  unfolding computeConstraints_def triangle_buildContactMatrix sum.case Let_def
    triangle_rolling_explicit
  by (simp add: triangleR_def)

lemma triangle_projected_explicit:
  "projectToRoll triangleH triangleR = [[0, 0, 0], [0, 0, 0], [0, 0, 3 / 2]]"
proof -
  have three: "[0..<3] = [0, 1, 2]" and six: "[0..<6] = [0, 1, 2, 3, 4, 5]"
    by (simp_all add: upt_rec)
  have ncR: "numCols triangleR = 3" and ncH: "numCols triangleH = 6"
    by (simp_all add: numCols_def triangleR_def triangleH_def)
  have t: "transposeM triangleR =
      [[sqrt 3 / 3, 0, sqrt 3 / 3, 0, sqrt 3 / 3, 0],
       [0, sqrt 3 / 3, 0, sqrt 3 / 3, 0, sqrt 3 / 3],
       [sqrt 3 / 6, - (1 / 2), sqrt 3 / 6, 1 / 2, - (sqrt 3 / 3), 0]]"
    unfolding transposeM_def ncR three by (simp add: column_def triangleR_def)
  have 1: "mmul (transposeM triangleR) triangleH =
      [[0, 0, 0, 0, 0, 0], [0, 0, 0, 0, 0, 0],
       [sqrt 3 / 4, - (3 / 4), sqrt 3 / 4, 3 / 4, - (sqrt 3 / 2), 0]]"
    unfolding t mmul_def ncH six
    by (simp add: dot_def column_def triangleH_def field_simps sqrt_products)
  have 2: "mmul [[0, 0, 0, 0, 0, 0], [0, 0, 0, 0, 0, 0],
       [sqrt 3 / 4, - (3 / 4), sqrt 3 / 4, 3 / 4, - (sqrt 3 / 2), 0]] triangleR
      = [[0, 0, 0], [0, 0, 0], [0, 0, 3 / 2]]"
    unfolding mmul_def ncR three
    by (simp add: dot_def column_def triangleR_def field_simps sqrt_products)
  show ?thesis unfolding projectToRoll_def 1 2 ..
qed

lemma triangleEig_projected_exact:
  "exactEigen triangleEig (symmetrize (projectToRoll triangleH
     (rollingSpaceBasis triangleEig triangleA (1 / 10 ^ 10))))"
proof -
  have s: "symmetrize [[0, 0, 0], [0, 0, 0], [0, 0, 3 / 2]] = [[0, 0, 0], [0, 0, 0], [0, 0, 3 / 2]]"
    by (simp add: symmetrize_def upt_rec)
  have e: "triangleEig [[0, 0, 0], [0, 0, 0], [0, 0, 3 / 2]]
      = ([0, 0, 3 / 2], [[1, 0, 0], [0, 1, 0], [0, 0, 1]])"
    by (simp add: triangleEig_def)
  have l: "length [[0, 0, 0], [0, 0, 0], [0, 0, 3 / 2 :: real]] = 3" by simp
  have mv: "\<forall>i < 3. \<forall>j < 3.
      (\<Sum>k < 3. [[0, 0, 0], [0, 0, 0], [0, 0, 3 / 2]] ! i ! k
          * [[1, 0, 0], [0, 1, 0], [0, 0, 1]] ! k ! j)
        = [[1, 0, 0], [0, 1, 0], [0, 0, 1]] ! i ! j * [0, 0, 3 / 2 :: real] ! j"
    unfolding all_less_3 sum_less_3 by simp
  have vv: "\<forall>i < 3. \<forall>j < 3.
      (\<Sum>k < 3. [[1, 0, 0], [0, 1, 0], [0, 0, 1 :: real]] ! k ! i
          * [[1, 0, 0], [0, 1, 0], [0, 0, 1]] ! k ! j) = (if i = j then 1 else 0)"
    unfolding all_less_3 sum_less_3 by simp
  have vvt: "\<forall>i < 3. \<forall>j < 3.
      (\<Sum>k < 3. [[1, 0, 0], [0, 1, 0], [0, 0, 1 :: real]] ! i ! k
          * [[1, 0, 0], [0, 1, 0], [0, 0, 1]] ! j ! k) = (if i = j then 1 else 0)"
    unfolding all_less_3 sum_less_3 by simp
  show ?thesis
    unfolding triangle_rolling_explicit triangle_projected_explicit s exactEigen_def e prod.case l
    using mv vv vvt by simp
qed

subsection \<open>The claim\<close>

text \<open>
  Claim C2, as the code has it. Take the three unit disks with their centers at the corners
  of the equilateral triangle of side 1, with the three contacts, and decompositions that are
  exact on the matrices they are given for this input: the eigenvalue decomposition on
  \<open>A\<^sup>T A\<close> and on the symmetrised projected Hessian, the singular value decomposition on the
  centred positions and on \<open>A\<^sup>T\<close>. Then the rolling dimension is 3, the Morse index is 0,
  \<open>isLocalMinimum\<close> is true, and the perimeter of the disks is \<open>3 + 2 \<pi>\<close>.
\<close>

theorem equilateral_triangle_analysis:
  assumes "exactEigen eig (mmul (transposeM triangleA) triangleA)"
    and "exactEigen eig (symmetrize (projectToRoll triangleH
           (rollingSpaceBasis eig triangleA (1 / 10 ^ 10))))"
    and "exactSingularValues svd (centeredRows (positions triangle))"
    and "exactThinSVD svd (transposeM triangleA)"
  shows "\<exists>c h. computeConstraints eig triangle = Inr c \<and> dimension c = 3
     \<and> computeHessian svd eig triangle (rollingMatrix c) = Inr h
     \<and> indexMorseCritical h = 0 \<and> isLocalMinimum h = True
     \<and> perimeterOfDisks svd triangle = Some (3 + 2 * pi)"
  using assms by (rule triangle_analysis)

text \<open>
  The hypotheses hold for the explicit decompositions \<^const>\<open>triangleEig\<close> and
  \<^const>\<open>triangleSVD\<close>.
\<close>

theorem equilateral_triangle_analysis_witness:
  "exactEigen triangleEig (mmul (transposeM triangleA) triangleA)
   \<and> exactEigen triangleEig (symmetrize (projectToRoll triangleH
           (rollingSpaceBasis triangleEig triangleA (1 / 10 ^ 10))))
   \<and> exactSingularValues triangleSVD (centeredRows (positions triangle))
   \<and> exactThinSVD triangleSVD (transposeM triangleA)
   \<and> (\<exists>c h. computeConstraints triangleEig triangle = Inr c \<and> dimension c = 3
     \<and> computeHessian triangleSVD triangleEig triangle (rollingMatrix c) = Inr h
     \<and> indexMorseCritical h = 0 \<and> isLocalMinimum h = True
     \<and> perimeterOfDisks triangleSVD triangle = Some (3 + 2 * pi))"
  using equilateral_triangle_analysis [OF triangleEig_gram_exact triangleEig_projected_exact
      triangleSVD_centered triangleSVD_exact]
    triangleEig_gram_exact triangleEig_projected_exact triangleSVD_centered triangleSVD_exact
  by simp

text \<open>
  Claim C2 as it is written asks for the rolling dimension 0. With the exact eigenvalue
  decomposition \<^const>\<open>triangleEig\<close> the constraints of the triangle have the rolling
  matrix \<^const>\<open>triangleR\<close>, of three columns, and the dimension 3.
\<close>

theorem equilateral_triangle_counterexample:
  "exactEigen triangleEig (mmul (transposeM triangleA) triangleA)
   \<and> buildContactMatrix triangle = Inr triangleA
   \<and> computeConstraints triangleEig triangle =
       Inr \<lparr> contactMatrix = triangleA, rollingMatrix = triangleR, dimension = 3 \<rparr>
   \<and> dimension \<lparr> contactMatrix = triangleA, rollingMatrix = triangleR, dimension = 3 \<rparr> \<noteq> 0"
  by (simp add: triangleEig_gram_exact triangle_buildContactMatrix triangle_constraints_explicit)

end
